theory Spec2Isabelle
  imports Complex_Main "HOL-Library.Word" "HOL-Library.Log_Nat" "HOL-Library.Multiset"
begin

section \<open>Values, tuples and errors shared by both packages\<close>

text \<open>
  The repository holds two Go packages in one file: \<open>mnist\<close> (a data source that reads
  the MNIST files and streams them to a writer) and \<open>mlstate\<close> (a shared state that
  buffers tuples and hands them to a Python object). Both exchange \<open>data.Value\<close>s and
  \<open>core.Tuple\<close>s of the host engine.

  \<open>data.Value\<close> is an interface; \<open>NilValue\<close> is the nil interface value, the other
  constructors are the engine's value types. The type parameter \<open>'f\<close> is the
  representation of floating-point numbers.
\<close>

type_synonym byte = "8 word"

datatype 'f Value =
    NilValue
  | Null
  | Bool bool
  | IntV int
  | Float 'f
  | String string
  | Blob "byte list"
  | TimestampV nat
  | Array "'f Value list"
  | Map "(string \<times> 'f Value) list"

text \<open>Go \<open>error\<close> values: the two sentinel errors of \<open>core\<close> and any other error.\<close>

datatype error = ErrSourceRewound | ErrSourceStopped | Error string

text \<open>Run-time panics of Go that the code can reach.\<close>

datatype panic = MakesliceOutOfRange | IndexOutOfRange

text \<open>
  \<open>make\<close> of a slice panics (makeslice: len or cap out of range) when the length is
  negative or when the memory asked for, the size of an element times the length, is more
  than the run-time system gives to one slice. That limit and the sizes of the elements
  belong to the platform, so they are parameters: \<open>maxAlloc\<close> is the limit in bytes (the
  constant of that name of the Go run-time system, or less where memory is short), and
  \<open>elemSize\<close> is the size in bytes of an element of each of the slices the code makes: a
  \<open>data.Value\<close>, a row \<open>[]float32\<close>, a \<open>float32\<close> and an \<open>int32\<close>.
\<close>

datatype elem = ValueElem | RowElem | Float32Elem | Int32Elem

record runtime =
  maxAlloc :: int
  elemSize :: "elem \<Rightarrow> int"

definition make_ok :: "runtime \<Rightarrow> elem \<Rightarrow> int \<Rightarrow> bool" where
  "make_ok rt el n = (0 \<le> n \<and> elemSize rt el * n \<le> maxAlloc rt)"

type_synonym TraceEvent = string

record 'f Tuple =
  Data :: "(string \<times> 'f Value) list"
  Timestamp :: nat
  ProcTimestamp :: nat
  Trace :: "TraceEvent list"

section \<open>Package mnist\<close>

subsection \<open>float32\<close>

text \<open>
  A finite \<open>float32\<close> is represented by the rational number it denotes. Go's
  \<open>float32\<close> arithmetic is IEEE 754 binary32: the result of a division is the exact
  quotient rounded to the nearest number with a 24-bit significand, ties to the even
  significand. \<open>float32_round\<close> is that rounding with an unbounded exponent, which is
  binary32 rounding for every result that is zero or of magnitude in
  the normal range, from \<open>2 powi (-126)\<close> up to \<open>2 powi 128\<close>; the quotients of a byte
  by 255 are.
  \<open>ilog2 x\<close> is the exponent of \<open>x > 0\<close>: \<open>2 powi ilog2 x \<le> x < 2 powi (ilog2 x + 1)\<close>.
\<close>

type_synonym float32 = rat
type_synonym int32 = "32 word" \<comment> \<open>read as a signed number by \<open>sint\<close>\<close>

definition round_half_even :: "rat \<Rightarrow> int" where
  "round_half_even q =
     (let f = \<lfloor>q\<rfloor>; d = q - of_int f
      in if d < 1 / 2 then f else if 1 / 2 < d then f + 1 else if even f then f else f + 1)"

definition ilog2 :: "rat \<Rightarrow> int" where
  "ilog2 x =
     (case quotient_of x of (p, q) \<Rightarrow>
        (let k = int (floorlog 2 (nat p)) - int (floorlog 2 (nat q))
         in if 2 powi k \<le> x then k else k - 1))"

definition float32_round :: "rat \<Rightarrow> float32" where
  "float32_round x =
     (if x = 0 then 0
      else (let e = ilog2 \<bar>x\<bar>; u = 2 powi (e - 23)
            in sgn x * of_int (round_half_even (\<bar>x\<bar> / u)) * u))"

definition float32_div :: "float32 \<Rightarrow> float32 \<Rightarrow> float32" where
  "float32_div x y = float32_round (x / y)"

definition float32_of_byte :: "byte \<Rightarrow> float32" where
  "float32_of_byte b = of_nat (unat b)"

subsection \<open>Files and readers\<close>

text \<open>
  The file system maps a path to what \<open>os.Open\<close> returns for it: an error, or the file,
  which is its bytes. A \<open>bufio.Reader\<close> on a file is the list of the bytes not read yet.
  \<open>ReadByte\<close> returns the next byte, or the zero byte and the error \<open>io.EOF\<close> at the end
  of the file.
\<close>

type_synonym filesystem = "string \<Rightarrow> error + byte list"
type_synonym Reader = "byte list"

definition reader :: "filesystem \<Rightarrow> string \<Rightarrow> error + Reader" where
  "reader fs path = (case fs path of Inl err \<Rightarrow> Inl err | Inr f \<Rightarrow> Inr f)"

definition ReadByte :: "Reader \<Rightarrow> (byte \<times> error option) \<times> Reader" where
  "ReadByte r = (case r of [] \<Rightarrow> ((0, Some (Error ''EOF'')), []) | b # r' \<Rightarrow> ((b, None), r'))"

definition imagesDataOffsetSize :: nat where
  "imagesDataOffsetSize = 16"

definition labelsDataOffsetSize :: nat where
  "labelsDataOffsetSize = 8"

subsection \<open>getMNISTRawData\<close>

text \<open>The two loops that skip the headers: \<open>for i := 0; i < n; i++ { r.ReadByte() }\<close>.\<close>

function skip_bytes :: "nat \<Rightarrow> nat \<Rightarrow> Reader \<Rightarrow> Reader" where
  "skip_bytes i n r = (if i < n then skip_bytes (Suc i) n (snd (ReadByte r)) else r)"
  by pat_completeness auto
termination
  by (relation "measure (\<lambda>(i, n, r). n - i)") auto

text \<open>
  The inner loop over \<open>j\<close>: one byte of the image file for each component of row \<open>i\<close>,
  stored as \<open>float32(ib) / 255\<close>. The error of \<open>ReadByte\<close> is dropped, as in the source.
\<close>

function read_image ::
  "nat \<Rightarrow> nat \<Rightarrow> nat \<Rightarrow> Reader \<Rightarrow> float32 list list \<Rightarrow> Reader \<times> float32 list list" where
  "read_image i j imageElemSize ir data =
     (if j < imageElemSize then
        (case ReadByte ir of ((ib, _), ir') \<Rightarrow>
           read_image i (Suc j) imageElemSize ir'
             (data[i := (data ! i)[j := float32_div (float32_of_byte ib) 255]]))
      else (ir, data))"
  by pat_completeness auto
termination
  by (relation "measure (\<lambda>(i, j, imageElemSize, ir, data). imageElemSize - j)") auto

text \<open>The outer loop over \<open>i\<close>: one byte of the label file, then the image.\<close>

function read_records ::
  "nat \<Rightarrow> nat \<Rightarrow> nat \<Rightarrow> Reader \<Rightarrow> Reader \<Rightarrow> int32 list \<Rightarrow> float32 list list
     \<Rightarrow> int32 list \<times> float32 list list" where
  "read_records i dataSize imageElemSize lr ir target data =
     (if i < dataSize then
        (case ReadByte lr of ((lb, _), lr') \<Rightarrow>
           (case read_image i 0 imageElemSize ir data of (ir', data') \<Rightarrow>
              read_records (Suc i) dataSize imageElemSize lr' ir' (target[i := ucast lb]) data'))
      else (target, data))"
  by pat_completeness auto
termination
  by (relation "measure (\<lambda>(i, dataSize, imageElemSize, lr, ir, target, data). dataSize - i)") auto

text \<open>
  The three kinds of \<open>make\<close>, in the order of the source: \<open>data\<close> of \<open>dataSize\<close> rows,
  each row of \<open>imageElemSize\<close> components when there is a row to make, and \<open>target\<close> of
  \<open>dataSize\<close> labels. Each panics on a length that is negative or too large.
\<close>

definition getMNISTRawData ::
  "runtime \<Rightarrow> filesystem \<Rightarrow> string \<Rightarrow> string \<Rightarrow> int \<Rightarrow> int
     \<Rightarrow> panic + (int32 list \<times> float32 list list \<times> error option)" where
  "getMNISTRawData rt fs imagesDataName labelsDataName dataSize imageElemSize =
     (case reader fs imagesDataName of
        Inl err \<Rightarrow> Inr ([], [], Some err)
      | Inr ir \<Rightarrow>
          (case reader fs labelsDataName of
             Inl err \<Rightarrow> Inr ([], [], Some err)
           | Inr lr \<Rightarrow>
               if \<not> make_ok rt RowElem dataSize then Inl MakesliceOutOfRange
               else if 0 < dataSize \<and> \<not> make_ok rt Float32Elem imageElemSize
               then Inl MakesliceOutOfRange
               else if \<not> make_ok rt Int32Elem dataSize then Inl MakesliceOutOfRange
               else
                 (let data = replicate (nat dataSize) (replicate (nat imageElemSize) 0);
                      target = replicate (nat dataSize) 0;
                      ir1 = skip_bytes 0 imagesDataOffsetSize ir;
                      lr1 = skip_bytes 0 labelsDataOffsetSize lr
                  in case read_records 0 (nat dataSize) (nat imageElemSize) lr1 ir1 target data of
                       (target', data') \<Rightarrow> Inr (target', data', None))))"

subsection \<open>The data source\<close>

record mnistDataSource =
  data :: "float32 list list"
  target :: "int32 list"
  dataSize :: int
  imageElemSize :: int
  batchSize_mnist :: int
  randomFlag :: bool

text \<open>
  What \<open>GenerateStream\<close> reads from outside: \<open>rand_Intn k n\<close> is the result of the
  \<open>k\<close>-th call of \<open>rand.Intn\<close>, made with argument \<open>n\<close>; \<open>time_Now k\<close> is the time the
  \<open>k\<close>-th call of \<open>time.Now\<close> returns; \<open>w_Write ws tu\<close> is the error the writer returns
  for the tuple \<open>tu\<close> after it was given the tuples \<open>ws\<close>.
\<close>

record stream_env =
  rand_Intn :: "nat \<Rightarrow> int \<Rightarrow> int"
  time_Now :: "nat \<Rightarrow> nat"
  w_Write :: "float32 Tuple list \<Rightarrow> float32 Tuple \<Rightarrow> error option"

text \<open>
  \<open>ramdomPermutaion\<close>: for each index \<open>i\<close> of \<open>perm\<close>, swap position \<open>i\<close> and position
  \<open>rand.Intn(i + 1)\<close>. An index out of range panics.
\<close>

function ramdomPermutaion_from :: "(nat \<Rightarrow> int \<Rightarrow> int) \<Rightarrow> nat \<Rightarrow> int list \<Rightarrow> panic + int list" where
  "ramdomPermutaion_from Intn i perm =
     (if i < length perm then
        (let j = Intn i (int i + 1)
         in if 0 \<le> j \<and> nat j < length perm
            then ramdomPermutaion_from Intn (Suc i) (perm[i := perm ! nat j, nat j := perm ! i])
            else Inl IndexOutOfRange)
      else Inr perm)"
  by pat_completeness auto
termination
  by (relation "measure (\<lambda>(Intn, i, perm). length perm - i)") auto

definition ramdomPermutaion :: "(nat \<Rightarrow> int \<Rightarrow> int) \<Rightarrow> int list \<Rightarrow> panic + int list" where
  "ramdomPermutaion Intn perm = ramdomPermutaion_from Intn 0 perm"

text \<open>
  The emission loop of \<open>GenerateStream\<close>, from index \<open>i\<close>, with the tuples written so far.
  The result is the tuples given to the writer, the lines logged, and the error returned.
\<close>

function emit_from ::
  "stream_env \<Rightarrow> mnistDataSource \<Rightarrow> nat \<Rightarrow> float32 Tuple list
     \<Rightarrow> panic + (float32 Tuple list \<times> string list \<times> error option)" where
  "emit_from env s i ws =
     (if int i < dataSize s then
        (if i < length (data s) \<and> i < length (target s) then
           (let image = map Float (data s ! i);
                dm = [(''label'', IntV (sint (target s ! i))), (''data'', Array image)];
                now = time_Now env i;
                tu = \<lparr>Data = dm, Timestamp = now, ProcTimestamp = now, Trace = []\<rparr>;
                err = w_Write env ws tu
            in if err = Some ErrSourceRewound \<or> err = Some ErrSourceStopped
               then Inr (ws @ [tu], [], err)
               else emit_from env s (Suc i) (ws @ [tu]))
         else Inl IndexOutOfRange)
      else Inr (ws, [''all MNIST data has been streaming''], None))"
  by pat_completeness auto
termination
  by (relation "measure (\<lambda>(env, s, i, ws). nat (dataSize s) - i)") auto

text \<open>
  \<open>GenerateStream\<close>: the identity permutation, shuffled when the random flag is set, and
  then the emission loop, which reads \<open>s.data[i]\<close> and \<open>s.target[i]\<close>.
\<close>

definition GenerateStream ::
  "stream_env \<Rightarrow> mnistDataSource \<Rightarrow> panic + (float32 Tuple list \<times> string list \<times> error option)" where
  "GenerateStream env s =
     (if dataSize s < 0 then Inl MakesliceOutOfRange
      else
        (let perm = map int [0..<nat (dataSize s)]
         in case (if randomFlag s then ramdomPermutaion (rand_Intn env) perm else Inr perm) of
              Inl p \<Rightarrow> Inl p
            | Inr perm' \<Rightarrow> emit_from env s 0 []))"

subsection \<open>Notions used to state the properties of package mnist\<close>

text \<open>
  \<open>makes_ok rt N E\<close>: none of the makes of \<open>getMNISTRawData\<close> panics for \<open>N\<close> records of
  \<open>E\<close> components. \<open>byte_at r k\<close> is the byte the \<open>(k + 1)\<close>-th \<open>ReadByte\<close> on \<open>r\<close> returns: the byte at
  offset \<open>k\<close>, or the zero byte past the end. \<open>pixel ib\<close> is the expression
  \<open>float32(ib) / 255\<close> of the source.
\<close>

definition makes_ok :: "runtime \<Rightarrow> int \<Rightarrow> int \<Rightarrow> bool" where
  "makes_ok rt N E =
     (make_ok rt RowElem N \<and> (0 < N \<longrightarrow> make_ok rt Float32Elem E) \<and> make_ok rt Int32Elem N)"

definition byte_at :: "Reader \<Rightarrow> nat \<Rightarrow> byte" where
  "byte_at r k = (if k < length r then r ! k else 0)"

definition pixel :: "byte \<Rightarrow> float32" where
  "pixel ib = float32_div (float32_of_byte ib) 255"

text \<open>
  \<open>record_at env s i\<close> is the tuple the emission loop builds in iteration \<open>i\<close>;
  \<open>answer env s i\<close> is what the writer returns for it when the tuples of all earlier
  iterations were written; \<open>halts\<close> holds of the two errors that end the loop;
  \<open>in_range\<close> is the contract of \<open>rand.Intn\<close>: a result in \<open>[0, n)\<close>.
\<close>

definition record_at :: "stream_env \<Rightarrow> mnistDataSource \<Rightarrow> nat \<Rightarrow> float32 Tuple" where
  "record_at env s i =
     \<lparr>Data = [(''label'', IntV (sint (target s ! i))), (''data'', Array (map Float (data s ! i)))],
      Timestamp = time_Now env i, ProcTimestamp = time_Now env i, Trace = []\<rparr>"

definition answer :: "stream_env \<Rightarrow> mnistDataSource \<Rightarrow> nat \<Rightarrow> error option" where
  "answer env s i = w_Write env (map (record_at env s) [0..<i]) (record_at env s i)"

definition halts :: "error option \<Rightarrow> bool" where
  "halts e = (e = Some ErrSourceRewound \<or> e = Some ErrSourceStopped)"

definition in_range :: "(nat \<Rightarrow> int \<Rightarrow> int) \<Rightarrow> bool" where
  "in_range Intn = (\<forall>k n. 0 < n \<longrightarrow> 0 \<le> Intn k n \<and> Intn k n < n)"

section \<open>Package mlstate\<close>

subsection \<open>The external collaborators\<close>

text \<open>
  \<open>py.ObjectModule\<close> and \<open>py.ObjectInstance\<close> are handles of Python objects. Every
  effect on the Python side and on the logger is recorded, in order, in a list of events;
  what the Python side answers is a function of the events so far, so the answers may
  depend on every earlier call. \<open>Debugf loss acc n\<close> is the line \<open>Write\<close> logs, with the
  loss, the accuracy and the batch size that its message is computed from.
\<close>

type_synonym ObjectModule = nat
type_synonym ObjectInstance = nat

datatype 'f event =
    ImportSysAndAppendPath string
  | LoadModule string
  | NewInstance ObjectModule string "'f Value"
  | Call ObjectInstance string "'f Value"
  | InsDecRef ObjectInstance
  | MdlDecRef ObjectModule
  | Debugf 'f 'f int

text \<open>
  The functions of packages \<open>py\<close> and \<open>data\<close> that the code calls. They are not part of
  the repository, so they are parameters: every theorem below holds for all of them.
  \<open>AsMap\<close>, \<open>Get\<close> and \<open>ToFloat\<close> return a Go pair of a result and an error, read here
  as a sum; \<open>ins_Call\<close> returns both components, as \<open>Write\<close> reads both.
\<close>

record ('f, 'm) extern =
  py_LoadModule :: "'f event list \<Rightarrow> string \<Rightarrow> error + ObjectModule"
  mdl_NewInstance :: "'f event list \<Rightarrow> ObjectModule \<Rightarrow> string \<Rightarrow> 'f Value \<Rightarrow> error + ObjectInstance"
  ins_Call :: "'f event list \<Rightarrow> ObjectInstance \<Rightarrow> string \<Rightarrow> 'f Value \<Rightarrow> 'f Value \<times> error option"
  data_AsMap :: "'f Value \<Rightarrow> error + 'm"
  map_Get :: "'m \<Rightarrow> string \<Rightarrow> error + 'f Value"
  data_ToFloat :: "'f Value \<Rightarrow> error + 'f"

definition lossPath :: string where
  "lossPath = ''loss''"

definition accPath :: string where
  "accPath = ''accuracy''"

subsection \<open>The state\<close>

record 'f PyMLState =
  mdl :: ObjectModule
  ins :: ObjectInstance
  bucket :: "'f Value list"
  batchSize :: int

text \<open>
  \<open>NewPyMLState\<close>: \<open>make(data.Array, 0, batchSize)\<close> panics on a capacity that is
  negative or too large. The
  result is the event list and either the error or the new state.
\<close>

definition NewPyMLState ::
  "runtime \<Rightarrow> ('f, 'm) extern \<Rightarrow> 'f event list \<Rightarrow> string \<Rightarrow> string \<Rightarrow> string \<Rightarrow> int \<Rightarrow> string
     \<Rightarrow> panic + ('f event list \<times> (error + 'f PyMLState))" where
  "NewPyMLState rt ex tr modulePathName moduleName className bSize modelPath =
     (let tr1 = tr @ [ImportSysAndAppendPath modulePathName] in
      case py_LoadModule ex tr1 moduleName of
        Inl err \<Rightarrow> Inr (tr1 @ [LoadModule moduleName], Inl err)
      | Inr m \<Rightarrow>
          (let tr2 = tr1 @ [LoadModule moduleName] in
           case mdl_NewInstance ex tr2 m className (String modelPath) of
             Inl err \<Rightarrow>
               Inr (tr2 @ [NewInstance m className (String modelPath), MdlDecRef m], Inl err)
           | Inr i \<Rightarrow>
               (let tr3 = tr2 @ [NewInstance m className (String modelPath)] in
                if \<not> make_ok rt ValueElem bSize then Inl MakesliceOutOfRange
                else Inr (tr3, Inr \<lparr>mdl = m, ins = i, bucket = [], batchSize = bSize\<rparr>))))"

text \<open>
  The methods have a pointer receiver; each returns the receiver as it is after the call,
  the event list after the call, and the Go results.
\<close>

definition Terminate :: "'f PyMLState \<Rightarrow> 'f event list \<Rightarrow> 'f PyMLState \<times> 'f event list \<times> error option" where
  "Terminate s tr = (s, tr @ [InsDecRef (ins s), MdlDecRef (mdl s)], None)"

definition Fit ::
  "('f, 'm) extern \<Rightarrow> 'f PyMLState \<Rightarrow> 'f event list \<Rightarrow> 'f Value list
     \<Rightarrow> 'f PyMLState \<times> 'f event list \<times> 'f Value \<times> error option" where
  "Fit ex s tr bkt =
     (let (v, er) = ins_Call ex tr (ins s) ''fit'' (Array bkt)
      in (s, tr @ [Call (ins s) ''fit'' (Array bkt)], v, er))"

definition FitMap ::
  "('f, 'm) extern \<Rightarrow> 'f PyMLState \<Rightarrow> 'f event list \<Rightarrow> (string \<times> 'f Value) list list
     \<Rightarrow> 'f PyMLState \<times> 'f event list \<times> 'f Value \<times> error option" where
  "FitMap ex s tr bkt =
     (let args = map Map bkt;
          (v, er) = ins_Call ex tr (ins s) ''fit'' (Array args)
      in (s, tr @ [Call (ins s) ''fit'' (Array args)], v, er))"

text \<open>
  \<open>Write\<close>: append, then, when the bucket has reached the batch size, fit, clear, and log
  loss and accuracy when the result has them. Every \<open>return err\<close> of the logging block is
  a branch of its own.
\<close>

definition Write ::
  "('f, 'm) extern \<Rightarrow> 'f PyMLState \<Rightarrow> 'f event list \<Rightarrow> 'f Tuple
     \<Rightarrow> 'f PyMLState \<times> 'f event list \<times> error option" where
  "Write ex s tr t =
     (let s1 = s\<lparr>bucket := bucket s @ [Map (Data t)]\<rparr> in
      if int (length (bucket s1)) \<ge> batchSize s1 then
        (case Fit ex s1 tr (bucket s1) of (s2, tr1, m, er) \<Rightarrow>
           (let err = er;
                s3 = s2\<lparr>bucket := []\<rparr> in
            case data_AsMap ex m of
              Inl e \<Rightarrow> (s3, tr1, err)
            | Inr ret \<Rightarrow>
                (case map_Get ex ret lossPath of
                   Inl e \<Rightarrow> (s3, tr1, err)
                 | Inr l \<Rightarrow>
                     (case data_ToFloat ex l of
                        Inl e \<Rightarrow> (s3, tr1, err)
                      | Inr loss \<Rightarrow>
                          (case map_Get ex ret accPath of
                             Inl e \<Rightarrow> (s3, tr1, err)
                           | Inr a \<Rightarrow>
                               (case data_ToFloat ex a of
                                  Inl e \<Rightarrow> (s3, tr1, err)
                                | Inr acc \<Rightarrow>
                                    (s3, tr1 @ [Debugf loss acc (batchSize s3)], err)))))))
      else (s1, tr, None))"

subsection \<open>The operations by name\<close>

text \<open>
  The context holds the registry of shared states and the events. A registered state is
  a \<open>PyMLState\<close> or a state of another type.
\<close>

datatype 'f SharedState = PyML "'f PyMLState" | OtherState string

record 'f Context =
  SharedStates :: "string \<Rightarrow> error + 'f SharedState"
  events :: "'f event list"

definition lookupPyMLState :: "'f Context \<Rightarrow> string \<Rightarrow> error + 'f PyMLState" where
  "lookupPyMLState ctx stateName =
     (case SharedStates ctx stateName of
        Inl err \<Rightarrow> Inl err
      | Inr (PyML s) \<Rightarrow> Inr s
      | Inr (OtherState _) \<Rightarrow>
          Inl (Error (''state '' @ [CHR 0x27] @ stateName @ [CHR 0x27] @ '' isn'' @ [CHR 0x27] @ ''t a PyMLState'')))"

definition PyMLFit ::
  "('f, 'm) extern \<Rightarrow> 'f Context \<Rightarrow> string \<Rightarrow> (string \<times> 'f Value) list list
     \<Rightarrow> 'f Context \<times> 'f Value \<times> error option" where
  "PyMLFit ex ctx stateName bkt =
     (case lookupPyMLState ctx stateName of
        Inl err \<Rightarrow> (ctx, NilValue, Some err)
      | Inr s \<Rightarrow>
          (case FitMap ex s (events ctx) bkt of (s', tr, v, er) \<Rightarrow>
             (ctx\<lparr>SharedStates := (SharedStates ctx)(stateName := Inr (PyML s')), events := tr\<rparr>, v, er)))"

definition PyMLPredict ::
  "('f, 'm) extern \<Rightarrow> 'f Context \<Rightarrow> string \<Rightarrow> 'f Value \<Rightarrow> 'f Context \<times> 'f Value \<times> error option" where
  "PyMLPredict ex ctx stateName dt =
     (case lookupPyMLState ctx stateName of
        Inl err \<Rightarrow> (ctx, NilValue, Some err)
      | Inr s \<Rightarrow>
          (let (v, er) = ins_Call ex (events ctx) (ins s) ''predict'' dt
           in (ctx\<lparr>events := events ctx @ [Call (ins s) ''predict'' dt]\<rparr>, v, er)))"

text \<open>A sequence of \<open>Write\<close> calls on one state, with the error each call returned.\<close>

fun Writes ::
  "('f, 'm) extern \<Rightarrow> 'f PyMLState \<Rightarrow> 'f event list \<Rightarrow> 'f Tuple list
     \<Rightarrow> 'f PyMLState \<times> 'f event list \<times> error option list" where
  "Writes ex s tr [] = (s, tr, [])"
| "Writes ex s tr (t # ts) =
     (case Write ex s tr t of (s1, tr1, e) \<Rightarrow>
        (case Writes ex s1 tr1 ts of (s2, tr2, es) \<Rightarrow> (s2, tr2, e # es)))"

text \<open>The \<open>fit\<close> calls among the events, in order, with their arguments.\<close>

fun fit_calls :: "'f event list \<Rightarrow> (ObjectInstance \<times> 'f Value) list" where
  "fit_calls [] = []"
| "fit_calls (Call i name v # es) = (if name = ''fit'' then (i, v) # fit_calls es else fit_calls es)"
| "fit_calls (_ # es) = fit_calls es"

text \<open>
  The records handed to \<open>fit\<close> by the events, in order: the elements of the array of
  each \<open>fit\<close> call, one call after the other.
\<close>

fun fitted :: "'f event list \<Rightarrow> 'f Value list" where
  "fitted [] = []"
| "fitted (Call i name (Array vs) # es) = (if name = ''fit'' then vs @ fitted es else fitted es)"
| "fitted (_ # es) = fitted es"

text \<open>The invariant of the state: the bucket is shorter than the batch size.\<close>

definition bucket_inv :: "'f PyMLState \<Rightarrow> bool" where
  "bucket_inv s = (int (length (bucket s)) < batchSize s)"

section \<open>Concurrent calls of Write\<close>

text \<open>
  \<open>PyMLState\<close> has no lock and \<open>Write\<close> takes none. To say what that means when several
  callers are inside \<open>Write\<close> on the same state, \<open>Write\<close> is split at its statements: a
  caller is at the append, at the test of the length, at the call of \<open>Fit\<close>, at the
  clearing of the bucket (holding \<open>m\<close> and \<open>err\<close>), at the logging block (which touches
  no field of the state but the batch size it reads), or has returned.
  \<open>thread_step\<close> runs one statement of one caller on the shared state; \<open>run\<close> runs the
  callers in the order a schedule names them (a list of caller indices, one statement
  each).
\<close>

text \<open>
  The logging block of \<open>Write\<close> on its own: the events after it. Each of its
  \<open>return err\<close> leaves the events as they are; only when the result of \<open>fit\<close> is a map
  with a loss and an accuracy that convert to floats is a line logged.
\<close>

definition log_block :: "('f, 'm) extern \<Rightarrow> 'f Value \<Rightarrow> int \<Rightarrow> 'f event list \<Rightarrow> 'f event list" where
  "log_block ex m bs tr =
     (case data_AsMap ex m of
        Inl e \<Rightarrow> tr
      | Inr ret \<Rightarrow>
          (case map_Get ex ret lossPath of
             Inl e \<Rightarrow> tr
           | Inr l \<Rightarrow>
               (case data_ToFloat ex l of
                  Inl e \<Rightarrow> tr
                | Inr loss \<Rightarrow>
                    (case map_Get ex ret accPath of
                       Inl e \<Rightarrow> tr
                     | Inr a \<Rightarrow>
                         (case data_ToFloat ex a of
                            Inl e \<Rightarrow> tr
                          | Inr acc \<Rightarrow> tr @ [Debugf loss acc bs])))))"

datatype 'f pc =
    AtAppend "'f Tuple"
  | AtCheck
  | AtFit
  | AtClear "'f Value" "error option"
  | AtLog "'f Value" "error option"
  | Returned "error option"

fun thread_step ::
  "('f, 'm) extern \<Rightarrow> 'f PyMLState \<times> 'f event list \<Rightarrow> 'f pc
     \<Rightarrow> ('f PyMLState \<times> 'f event list) \<times> 'f pc" where
  "thread_step ex (s, tr) (AtAppend t) = ((s\<lparr>bucket := bucket s @ [Map (Data t)]\<rparr>, tr), AtCheck)"
| "thread_step ex (s, tr) AtCheck =
     (if int (length (bucket s)) \<ge> batchSize s then ((s, tr), AtFit) else ((s, tr), Returned None))"
| "thread_step ex (s, tr) AtFit =
     (case Fit ex s tr (bucket s) of (s2, tr1, m, er) \<Rightarrow> ((s2, tr1), AtClear m er))"
| "thread_step ex (s, tr) (AtClear m err) = ((s\<lparr>bucket := []\<rparr>, tr), AtLog m err)"
| "thread_step ex (s, tr) (AtLog m err) = ((s, log_block ex m (batchSize s) tr), Returned err)"
| "thread_step ex (s, tr) (Returned err) = ((s, tr), Returned err)"

fun run ::
  "('f, 'm) extern \<Rightarrow> nat list \<Rightarrow> 'f PyMLState \<times> 'f event list \<times> 'f pc list
     \<Rightarrow> 'f PyMLState \<times> 'f event list \<times> 'f pc list" where
  "run ex [] c = c"
| "run ex (i # sched) (s, tr, ths) =
     (if i < length ths then
        (case thread_step ex (s, tr) (ths ! i) of
           ((s', tr'), p) \<Rightarrow> run ex sched (s', tr', ths[i := p]))
      else run ex sched (s, tr, ths))"

text \<open>The schedule that runs each of \<open>n\<close> callers to its return before the next starts.\<close>

definition serial :: "nat \<Rightarrow> nat list" where
  "serial n = concat (map (replicate 5) [0..<n])"

text \<open>
  What mutual exclusion of two callers would give: however the two are scheduled, once
  both have returned, the state and the events are those of the two writes made one
  after the other, in one order or the other.
\<close>

definition write_outcome ::
  "('f, 'm) extern \<Rightarrow> 'f PyMLState \<Rightarrow> 'f event list \<Rightarrow> 'f Tuple list
     \<Rightarrow> 'f PyMLState \<times> 'f event list" where
  "write_outcome ex s tr ts = (case Writes ex s tr ts of (s', tr', es) \<Rightarrow> (s', tr'))"

definition exclusive ::
  "('f, 'm) extern \<Rightarrow> 'f PyMLState \<Rightarrow> 'f event list \<Rightarrow> 'f Tuple \<Rightarrow> 'f Tuple \<Rightarrow> bool" where
  "exclusive ex s tr t1 t2 =
     (\<forall>sched s' tr' e1 e2.
        run ex sched (s, tr, [AtAppend t1, AtAppend t2]) = (s', tr', [Returned e1, Returned e2]) \<longrightarrow>
        (s', tr') = write_outcome ex s tr [t1, t2] \<or> (s', tr') = write_outcome ex s tr [t2, t1])"

section \<open>Sample collaborators and inputs\<close>

text \<open>
  A Python side whose \<open>fit\<close> answers with a given value and error, with a \<open>data\<close>
  package that reads maps by key and converts integers and floats to floats.
\<close>

definition sample_extern ::
  "rat Value \<times> error option \<Rightarrow> (rat, (string \<times> rat Value) list) extern" where
  "sample_extern fit_result =
     \<lparr>py_LoadModule = (\<lambda>tr name. Inr 1),
      mdl_NewInstance = (\<lambda>tr m className v. Inr 2),
      ins_Call = (\<lambda>tr i name v.
         if name = ''fit'' then fit_result
         else if name = ''predict'' then (IntV 7, None)
         else (NilValue, Some (Error ''no such method''))),
      data_AsMap = (\<lambda>v. case v of Map m \<Rightarrow> Inr m | _ \<Rightarrow> Inl (Error ''not a map'')),
      map_Get = (\<lambda>m k. case map_of m k of Some v \<Rightarrow> Inr v | None \<Rightarrow> Inl (Error ''no such key'')),
      data_ToFloat = (\<lambda>v. case v of Float f \<Rightarrow> Inr f | IntV i \<Rightarrow> Inr (of_int i)
                              | _ \<Rightarrow> Inl (Error ''not a number''))\<rparr>"

definition sample_state :: "int \<Rightarrow> rat PyMLState" where
  "sample_state k = \<lparr>mdl = 1, ins = 2, bucket = [], batchSize = k\<rparr>"

definition sample_tuple :: "int \<Rightarrow> rat Tuple" where
  "sample_tuple n = \<lparr>Data = [(''label'', IntV n)], Timestamp = 0, ProcTimestamp = 0, Trace = []\<rparr>"

text \<open>
  A registry with a state that holds one record and a state of another type.
\<close>

definition sample_context :: "rat Context" where
  "sample_context =
     \<lparr>SharedStates = (\<lambda>name.
         if name = ''model'' then Inr (PyML ((sample_state 2)\<lparr>bucket := [Map (Data (sample_tuple 1))]\<rparr>))
         else if name = ''other'' then Inr (OtherState ''counter'')
         else Inl (Error ''no such state'')),
      events = []\<rparr>"

text \<open>
  The run-time system of a 64-bit platform: \<open>maxAlloc\<close> is \<open>2 ^ 48\<close> bytes, an interface
  value takes 16 bytes, a slice header 24, a \<open>float32\<close> and an \<open>int32\<close> 4 each.
\<close>

definition sample_runtime :: runtime where
  "sample_runtime =
     \<lparr>maxAlloc = 2 ^ 48,
      elemSize = (\<lambda>el. case el of ValueElem \<Rightarrow> 16 | RowElem \<Rightarrow> 24 | Float32Elem \<Rightarrow> 4 | Int32Elem \<Rightarrow> 4)\<rparr>"

text \<open>
  Two MNIST files: a header of 16 bytes and four pixels; a header of 8 bytes and two
  labels. A source of three records, with the random flag set; a random number generator
  that always answers 0; a writer that answers with an ordinary error for the first
  record and with \<open>ErrSourceStopped\<close> for the second, and one that answers the second
  record with an ordinary error and the others with none.
\<close>

definition sample_fs :: filesystem where
  "sample_fs =
     (\<lambda>path. if path = ''images'' then Inr (replicate 16 7 @ [0, 255, 128, 1])
             else if path = ''labels'' then Inr (replicate 8 9 @ [3, 200])
             else Inl (Error ''no such file or directory''))"

definition sample_source :: mnistDataSource where
  "sample_source =
     \<lparr>data = [[0, 1], [1 / 2, 1 / 4], [1, 1]], target = [7, 8, 9], dataSize = 3,
      imageElemSize = 2, batchSize_mnist = 1, randomFlag = True\<rparr>"

definition sample_env :: "(float32 Tuple list \<Rightarrow> float32 Tuple \<Rightarrow> error option) \<Rightarrow> stream_env" where
  "sample_env w = \<lparr>rand_Intn = (\<lambda>k n. 0), time_Now = (\<lambda>k. 100 + k), w_Write = w\<rparr>"

definition stop_at_second :: "float32 Tuple list \<Rightarrow> float32 Tuple \<Rightarrow> error option" where
  "stop_at_second ws tu = (if length ws = 1 then Some ErrSourceStopped else Some (Error ''full''))"

definition never_stop :: "float32 Tuple list \<Rightarrow> float32 Tuple \<Rightarrow> error option" where
  "never_stop ws tu = (if length ws = 1 then Some (Error ''full'') else None)"

declare skip_bytes.simps [simp del] read_image.simps [simp del] read_records.simps [simp del]
  ramdomPermutaion_from.simps [simp del] emit_from.simps [simp del]

section \<open>Properties of package mnist\<close>

subsection \<open>Reading bytes\<close>

lemma ReadByte_eq: "ReadByte r = ((byte_at r 0, if r = [] then Some (Error ''EOF'') else None), drop 1 r)"
  by (cases r) (simp_all add: ReadByte_def byte_at_def)

lemma byte_at_drop: "byte_at (drop n r) k = byte_at r (n + k)"
  by (auto simp: byte_at_def)

lemma skip_bytes_drop: "skip_bytes i n r = drop (n - i) r"
proof (induction i n r rule: skip_bytes.induct)
  case (1 i n r)
  show ?case
  proof (cases "i < n")
    case True
    then have "n - i = Suc (n - Suc i)" by simp
    with True 1 show ?thesis by (simp add: ReadByte_eq skip_bytes.simps [of i n r])
  next
    case False
    then show ?thesis by (subst skip_bytes.simps) simp
  qed
qed

lemma read_image_eq:
  "i < length dat \<Longrightarrow> length (dat ! i) = E \<Longrightarrow> j \<le> E \<Longrightarrow>
   read_image i j E ir dat =
     (drop (E - j) ir,
      dat[i := take j (dat ! i) @ map (\<lambda>k. pixel (byte_at ir (k - j))) [j..<E]])"
proof (induction i j E ir dat rule: read_image.induct)
  case (1 i j E ir dat)
  show ?case
  proof (cases "j < E")
    case False
    with "1.prems" have "j = E" by simp
    moreover from False have "read_image i j E ir dat = (ir, dat)"
      by (subst read_image.simps) simp
    ultimately show ?thesis using "1.prems" by (simp add: list_update_same_conv)
  next
    case True
    let ?v = "pixel (byte_at ir 0)"
    let ?data1 = "dat[i := (dat ! i)[j := ?v]]"
    have rb: "ReadByte ir = ((byte_at ir 0, if ir = [] then Some (Error ''EOF'') else None), drop 1 ir)"
      by (rule ReadByte_eq)
    have IH: "read_image i (Suc j) E (drop 1 ir) ?data1 =
       (drop (E - Suc j) (drop 1 ir),
        ?data1[i := take (Suc j) (?data1 ! i) @ map (\<lambda>k. pixel (byte_at (drop 1 ir) (k - Suc j))) [Suc j..<E]])"
      using "1.IH" [OF True rb [symmetric] refl] True "1.prems"
      by (simp add: pixel_def)
    have t: "take (Suc j) (?data1 ! i) = take j (dat ! i) @ [?v]"
      using True "1.prems" by (simp add: take_Suc_conv_app_nth)
    have m: "map (\<lambda>k. pixel (byte_at (drop 1 ir) (k - Suc j))) [Suc j..<E]
             = map (\<lambda>k. pixel (byte_at ir (k - j))) [Suc j..<E]"
      by (rule map_cong) (auto simp: byte_at_drop Suc_diff_Suc)
    have d: "drop (E - Suc j) (drop 1 ir) = drop (E - j) ir"
      using True by (simp add: Suc_diff_Suc)
    have u: "[j..<E] = j # [Suc j..<E]"
      using True by (simp add: upt_conv_Cons)
    have "read_image i j E ir dat = read_image i (Suc j) E (drop 1 ir) ?data1"
      using True by (simp add: rb pixel_def read_image.simps [of i j E ir dat])
    then show ?thesis
      unfolding IH t m d u by simp
  qed
qed

lemma read_image_length:
  "i < length dat \<Longrightarrow> length (dat ! i) = E \<Longrightarrow>
   length (snd (read_image i 0 E ir dat)) = length dat"
  by (simp add: read_image_eq)

lemma read_records_eq:
  "length tgt = N \<Longrightarrow> length dat = N \<Longrightarrow> (\<forall>k<N. length (dat ! k) = E) \<Longrightarrow> i \<le> N \<Longrightarrow>
   read_records i N E lr ir tgt dat =
     (take i tgt @ map (\<lambda>k. ucast (byte_at lr (k - i))) [i..<N],
      take i dat @ map (\<lambda>k. map (\<lambda>j. pixel (byte_at ir ((k - i) * E + j))) [0..<E]) [i..<N])"
proof (induction i N E lr ir tgt dat rule: read_records.induct)
  case (1 i N E lr ir tgt dat)
  show ?case
  proof (cases "i < N")
    case False
    then have "read_records i N E lr ir tgt dat = (tgt, dat)"
      by (subst read_records.simps) simp
    with False "1.prems" show ?thesis by simp
  next
    case True
    let ?row = "map (\<lambda>j. pixel (byte_at ir j)) [0..<E]"
    let ?dat1 = "dat[i := ?row]"
    let ?tgt1 = "tgt[i := ucast (byte_at lr 0)]"
    have rb: "ReadByte lr = ((byte_at lr 0, if lr = [] then Some (Error ''EOF'') else None), drop 1 lr)"
      by (rule ReadByte_eq)
    have ri: "read_image i 0 E ir dat = (drop E ir, ?dat1)"
      using True "1.prems" by (simp add: read_image_eq)
    have IH: "read_records (Suc i) N E (drop 1 lr) (drop E ir) ?tgt1 ?dat1 =
       (take (Suc i) ?tgt1 @ map (\<lambda>k. ucast (byte_at (drop 1 lr) (k - Suc i))) [Suc i..<N],
        take (Suc i) ?dat1 @ map (\<lambda>k. map (\<lambda>j. pixel (byte_at (drop E ir) ((k - Suc i) * E + j))) [0..<E]) [Suc i..<N])"
      using "1.IH" [OF True rb [symmetric] refl ri [symmetric]] True "1.prems"
      by (simp add: nth_list_update)
    have t1: "take (Suc i) ?tgt1 = take i tgt @ [ucast (byte_at lr 0)]"
      using True "1.prems" by (simp add: take_Suc_conv_app_nth)
    have t2: "take (Suc i) ?dat1 = take i dat @ [?row]"
      using True "1.prems" by (simp add: take_Suc_conv_app_nth)
    have m1: "map (\<lambda>k. ucast (byte_at (drop 1 lr) (k - Suc i)) :: int32) [Suc i..<N]
             = map (\<lambda>k. ucast (byte_at lr (k - i))) [Suc i..<N]"
      by (rule map_cong) (auto simp: byte_at_drop Suc_diff_Suc)
    have m2: "map (\<lambda>k. map (\<lambda>j. pixel (byte_at (drop E ir) ((k - Suc i) * E + j))) [0..<E]) [Suc i..<N]
             = map (\<lambda>k. map (\<lambda>j. pixel (byte_at ir ((k - i) * E + j))) [0..<E]) [Suc i..<N]"
    proof (rule map_cong [OF refl])
      fix k assume "k \<in> set [Suc i..<N]"
      then have "k - i = Suc (k - Suc i)" by auto
      then have "(k - i) * E = E + (k - Suc i) * E" by simp
      then show "map (\<lambda>j. pixel (byte_at (drop E ir) ((k - Suc i) * E + j))) [0..<E]
                 = map (\<lambda>j. pixel (byte_at ir ((k - i) * E + j))) [0..<E]"
        by (simp add: byte_at_drop add.assoc)
    qed
    have u: "[i..<N] = i # [Suc i..<N]"
      using True by (simp add: upt_conv_Cons)
    have "read_records i N E lr ir tgt dat = read_records (Suc i) N E (drop 1 lr) (drop E ir) ?tgt1 ?dat1"
      using True by (simp add: rb ri read_records.simps [of i N E lr ir tgt dat])
    then show ?thesis
      unfolding IH t1 t2 m1 m2 u by simp
  qed
qed

lemma getMNISTRawData_eq:
  assumes "fs imagesDataName = Inr ib" "fs labelsDataName = Inr lb" "makes_ok rt N E" "0 \<le> E"
  shows "getMNISTRawData rt fs imagesDataName labelsDataName N E =
           Inr (map (\<lambda>k. ucast (byte_at lb (8 + k))) [0..<nat N],
                map (\<lambda>k. map (\<lambda>j. pixel (byte_at ib (16 + (k * nat E + j)))) [0..<nat E]) [0..<nat N],
                None)"
proof -
  from assms(3) have n: "0 \<le> N" by (simp add: makes_ok_def make_ok_def)
  from assms(3) have m: "make_ok rt RowElem N" "make_ok rt Int32Elem N"
    "\<not> (0 < N \<and> \<not> make_ok rt Float32Elem E)"
    by (auto simp: makes_ok_def)
  from assms(1,2,4) n show ?thesis
    by (simp add: getMNISTRawData_def reader_def skip_bytes_drop read_records_eq byte_at_drop
        imagesDataOffsetSize_def labelsDataOffsetSize_def m del: not_less)
qed

text \<open>
  \<open>createMNISTDataSource\<close> stores the two arrays that \<open>getMNISTRawData\<close> returned
  together with the \<open>dataSize\<close> it passed, so in every source it creates both arrays have
  \<open>dataSize\<close> entries and \<open>dataSize\<close> is not negative.
\<close>

lemma getMNISTRawData_lengths:
  assumes "getMNISTRawData rt fs imagesDataName labelsDataName N E = Inr (tg, dt, None)"
  shows "0 \<le> N \<and> length dt = nat N \<and> length tg = nat N"
proof -
  from assms obtain ib lb where f: "fs imagesDataName = Inr ib" "fs labelsDataName = Inr lb"
    by (auto simp: getMNISTRawData_def reader_def split: sum.splits)
  from assms f have m: "makes_ok rt N E"
    by (auto simp: getMNISTRawData_def reader_def makes_ok_def split: if_splits)
  then have n: "0 \<le> N" by (simp add: makes_ok_def make_ok_def)
  show ?thesis
  proof (cases "0 \<le> E")
    case True
    from getMNISTRawData_eq [OF f m True] assms n show ?thesis by auto
  next
    case False
    with m n have "N = 0" by (auto simp: makes_ok_def make_ok_def)
    with assms f m show ?thesis
      by (auto simp: getMNISTRawData_def reader_def Let_def makes_ok_def
          read_records.simps [of 0 0] split: prod.splits if_splits)
  qed
qed

text \<open>
  On a 64-bit platform the makes panic for a \<open>dataSize\<close> of \<open>2 ^ 62\<close>, whatever the files
  hold.
\<close>

lemma getMNISTRawData_large_dataSize:
  "getMNISTRawData sample_runtime sample_fs ''images'' ''labels'' (2 ^ 62) 2 = Inl MakesliceOutOfRange"
  by (simp add: getMNISTRawData_def reader_def sample_fs_def make_ok_def sample_runtime_def)

subsection \<open>Rounding to float32\<close>

lemma round_half_even_cases:
  "round_half_even q = \<lfloor>q\<rfloor> \<and> q - of_int \<lfloor>q\<rfloor> \<le> 1 / 2
   \<or> round_half_even q = \<lfloor>q\<rfloor> + 1 \<and> 1 / 2 \<le> q - of_int \<lfloor>q\<rfloor>"
  unfolding round_half_even_def Let_def by auto

lemma round_half_even_le:
  assumes "q \<le> of_int k"
  shows "round_half_even q \<le> k"
proof -
  have f: "\<lfloor>q\<rfloor> \<le> k" using assms by (simp add: floor_le_iff)
  from round_half_even_cases [of q] show ?thesis
  proof
    assume "round_half_even q = \<lfloor>q\<rfloor> \<and> q - of_int \<lfloor>q\<rfloor> \<le> 1 / 2"
    with f show ?thesis by simp
  next
    assume a: "round_half_even q = \<lfloor>q\<rfloor> + 1 \<and> 1 / 2 \<le> q - of_int \<lfloor>q\<rfloor>"
    then have "of_int \<lfloor>q\<rfloor> < q" by linarith
    with assms have "(of_int \<lfloor>q\<rfloor> :: rat) < of_int k" by linarith
    then have "\<lfloor>q\<rfloor> < k" by simp
    with a show ?thesis by simp
  qed
qed

lemma round_half_even_nonneg:
  assumes "0 \<le> q"
  shows "0 \<le> round_half_even q"
proof -
  have "0 \<le> \<lfloor>q\<rfloor>" using assms by simp
  with round_half_even_cases [of q] show ?thesis by auto
qed

lemma round_half_even_err: "\<bar>of_int (round_half_even q) - q\<bar> \<le> 1 / 2"
proof -
  have "of_int \<lfloor>q\<rfloor> \<le> q" "q < of_int \<lfloor>q\<rfloor> + 1" by linarith+
  with round_half_even_cases [of q] show ?thesis by auto
qed

lemma ilog2_bounds:
  assumes "0 < x"
  shows "2 powi ilog2 x \<le> x \<and> x < 2 powi (ilog2 x + 1)"
proof -
  obtain p q where pq: "quotient_of x = (p, q)" by (cases "quotient_of x")
  then have q: "0 < q" by (rule quotient_of_denom_pos)
  have x: "x = of_int p / of_int q" using pq by (rule quotient_of_div)
  with assms q have p: "0 < p" by (simp add: zero_less_divide_iff)
  define a where "a = floorlog 2 (nat p)"
  define b where "b = floorlog 2 (nat q)"
  have a: "2 ^ (a - 1) \<le> nat p" "nat p < 2 ^ a"
    using floorlog_bounds [of "nat p" 2] p by (simp_all add: a_def)
  have b: "2 ^ (b - 1) \<le> nat q" "nat q < 2 ^ b"
    using floorlog_bounds [of "nat q" 2] q by (simp_all add: b_def)
  have a0: "0 < a" using p by (simp add: a_def floorlog_eq_zero_iff zero_less_iff_neq_zero)
  have b0: "0 < b" using q by (simp add: b_def floorlog_eq_zero_iff zero_less_iff_neq_zero)
  have pa: "(2::rat) ^ (a - 1) \<le> of_int p" "(of_int p :: rat) < 2 ^ a"
    using a p by (metis of_nat_le_iff of_nat_numeral of_nat_power of_int_of_nat_eq int_nat_eq less_imp_le of_nat_less_iff)+
  have qb: "(2::rat) ^ (b - 1) \<le> of_int q" "(of_int q :: rat) < 2 ^ b"
    using b q by (metis of_nat_le_iff of_nat_numeral of_nat_power of_int_of_nat_eq int_nat_eq less_imp_le of_nat_less_iff)+
  define k where "k = int a - int b"
  have e1: "(2::rat) powi (k - 1) = 2 ^ (a - 1) / 2 ^ b"
  proof -
    have "k - 1 = int (a - 1) - int b" using a0 by (simp add: k_def)
    then show ?thesis by (simp add: power_int_diff)
  qed
  have e2: "(2::rat) powi (k + 1) = 2 ^ a / 2 ^ (b - 1)"
  proof -
    have "k + 1 = int a - int (b - 1)" using b0 by (simp add: k_def)
    then show ?thesis by (simp add: power_int_diff)
  qed
  have qpos: "(0::rat) < of_int q" using q by simp
  have lo: "(2::rat) powi (k - 1) \<le> x"
  proof -
    have "(2::rat) ^ (a - 1) / 2 ^ b \<le> of_int p / 2 ^ b"
      using pa by (simp add: divide_right_mono)
    also have "\<dots> \<le> of_int p / of_int q"
      using qb qpos p by (intro divide_left_mono) (simp_all)
    finally show ?thesis by (simp add: e1 x)
  qed
  have hi: "x < (2::rat) powi (k + 1)"
  proof -
    have "of_int p / of_int q < (2::rat) ^ a / of_int q"
      using pa qpos by (simp add: divide_strict_right_mono)
    also have "\<dots> \<le> 2 ^ a / 2 ^ (b - 1)"
      using qb qpos by (intro divide_left_mono) (simp_all)
    finally show ?thesis by (simp add: e2 x)
  qed
  have il: "ilog2 x = (if 2 powi k \<le> x then k else k - 1)"
    by (simp add: ilog2_def pq k_def a_def b_def Let_def)
  show ?thesis
  proof (cases "2 powi k \<le> x")
    case True
    with il hi show ?thesis by simp
  next
    case False
    with il lo show ?thesis by simp
  qed
qed

lemma float32_round_unit:
  assumes "0 \<le> x" "x \<le> 1"
  shows "0 \<le> float32_round x \<and> float32_round x \<le> 1"
proof (cases "x = 0")
  case True
  then show ?thesis by (simp add: float32_round_def)
next
  case False
  with assms have pos: "0 < x" by simp
  define e where "e = ilog2 x"
  define u :: rat where "u = 2 powi (e - 23)"
  have u0: "0 < u" by (simp add: u_def)
  have "2 powi e \<le> x" using ilog2_bounds [OF pos] by (simp add: e_def)
  with assms have "(2::rat) powi e \<le> 2 powi 0" by simp
  then have e0: "e \<le> 0"
    using power_int_strict_increasing [of 0 e "2::rat"] by (cases "0 < e") simp_all
  define K :: int where "K = 2 ^ nat (23 - e)"
  have Ku: "of_int K * u = 1"
  proof -
    have "of_int K = (2::rat) powi (23 - e)"
      using e0 by (simp add: K_def power_int_def)
    then have "of_int K * u = (2::rat) powi ((23 - e) + (e - 23))"
      unfolding u_def by (subst power_int_add) simp_all
    then show ?thesis by simp
  qed
  have "x / u \<le> 1 / u" using assms u0 by (simp add: divide_right_mono)
  also have "1 / u = of_int K" using Ku u0 by (simp add: field_simps)
  finally have "round_half_even (x / u) \<le> K" by (rule round_half_even_le)
  then have "(of_int (round_half_even (x / u)) :: rat) \<le> of_int K" by simp
  then have "of_int (round_half_even (x / u)) * u \<le> of_int K * u"
    using u0 by (simp add: mult_right_mono)
  then have up: "of_int (round_half_even (x / u)) * u \<le> 1" by (simp add: Ku)
  have "0 \<le> round_half_even (x / u)"
    using pos u0 by (intro round_half_even_nonneg) simp
  then have lo: "0 \<le> of_int (round_half_even (x / u)) * u" using u0 by simp
  have "float32_round x = of_int (round_half_even (x / u)) * u"
    using pos by (simp add: float32_round_def Let_def e_def u_def)
  with lo up show ?thesis by simp
qed

lemma float32_round_err:
  assumes "0 < x"
  shows "\<bar>float32_round x - x\<bar> \<le> x * 2 powi (- 24)"
proof -
  define e where "e = ilog2 x"
  define u :: rat where "u = 2 powi (e - 23)"
  have u0: "0 < u" by (simp add: u_def)
  have ex: "2 powi e \<le> x" using ilog2_bounds [OF assms] by (simp add: e_def)
  have fr: "float32_round x = of_int (round_half_even (x / u)) * u"
    using assms by (simp add: float32_round_def Let_def e_def u_def)
  have "float32_round x - x = (of_int (round_half_even (x / u)) - x / u) * u"
    using u0 by (simp add: fr field_simps)
  then have "\<bar>float32_round x - x\<bar> = \<bar>of_int (round_half_even (x / u)) - x / u\<bar> * u"
    using u0 by (simp add: abs_mult)
  also have "\<dots> \<le> 1 / 2 * u"
    using round_half_even_err [of "x / u"] u0 by (intro mult_right_mono) simp_all
  also have "1 / 2 * u = 2 powi e * 2 powi (- 24)"
  proof -
    have "(2::rat) powi e * 2 powi (- 24) = 2 powi (e + (- 24))"
      by (subst power_int_add) simp_all
    also have "e + (- 24) = (e - 23) + (- 1)" by simp
    also have "(2::rat) powi ((e - 23) + (- 1)) = 2 powi (e - 23) * 2 powi (- 1)"
      by (rule power_int_add) simp
    finally show ?thesis by (simp add: u_def)
  qed
  also have "\<dots> \<le> x * 2 powi (- 24)"
    using ex by (intro mult_right_mono) simp_all
  finally show ?thesis .
qed

text \<open>
  The result of \<open>float32_round\<close> on a positive number has a significand of 24 bits at the
  exponent of the number (or is the next power of two).
\<close>

lemma round_half_even_ge:
  assumes "of_int k \<le> q"
  shows "k \<le> round_half_even q"
proof -
  have "k \<le> \<lfloor>q\<rfloor>" using assms by (simp add: le_floor_iff)
  with round_half_even_cases [of q] show ?thesis by auto
qed

lemma float32_round_significand:
  assumes "0 < x"
  shows "\<exists>n. float32_round x = of_int n * 2 powi (ilog2 x - 23) \<and> 2 ^ 23 \<le> n \<and> n \<le> 2 ^ 24"
proof -
  define e where "e = ilog2 x"
  define u :: rat where "u = 2 powi (e - 23)"
  have u0: "0 < u" by (simp add: u_def)
  have b: "2 powi e \<le> x" "x < 2 powi (e + 1)"
    using ilog2_bounds [OF assms] by (simp_all add: e_def)
  have lo: "2 powi e / u = 2 ^ 23"
  proof -
    have "(2::rat) powi (e - (e - 23)) = 2 powi e / 2 powi (e - 23)"
      by (rule power_int_diff) simp
    then show ?thesis by (simp add: u_def)
  qed
  have hi: "2 powi (e + 1) / u = 2 ^ 24"
  proof -
    have "(2::rat) powi ((e + 1) - (e - 23)) = 2 powi (e + 1) / 2 powi (e - 23)"
      by (rule power_int_diff) simp
    then show ?thesis by (simp add: u_def)
  qed
  have "(2::rat) ^ 23 \<le> x / u"
    using b(1) u0 lo by (metis divide_right_mono less_imp_le)
  then have "of_int (2 ^ 23) \<le> x / u" by simp
  then have n1: "2 ^ 23 \<le> round_half_even (x / u)" by (rule round_half_even_ge)
  have "x / u \<le> (2::rat) ^ 24"
    using b(2) u0 hi by (metis divide_right_mono less_imp_le)
  then have "x / u \<le> of_int (2 ^ 24)" by simp
  then have n2: "round_half_even (x / u) \<le> 2 ^ 24" by (rule round_half_even_le)
  have "float32_round x = of_int (round_half_even (x / u)) * u"
    using assms by (simp add: float32_round_def Let_def e_def u_def)
  with n1 n2 show ?thesis unfolding u_def e_def by blast
qed

lemma pixel_unit: "0 \<le> pixel b \<and> pixel b \<le> 1"
proof -
  have "unat b < 2 ^ 8" using unsigned_less [of b, where ?'a = nat] by simp
  then have "unat b \<le> 255" by simp
  then have "(of_nat (unat b) :: rat) \<le> 255"
    by (metis of_nat_le_iff of_nat_numeral)
  then have "(of_nat (unat b) :: rat) / 255 \<le> 1" by simp
  moreover have "0 \<le> (of_nat (unat b) :: rat) / 255"
    by (intro divide_nonneg_nonneg of_nat_0_le_iff) simp
  ultimately show ?thesis
    unfolding pixel_def float32_div_def float32_of_byte_def by (intro float32_round_unit)
qed

lemma sint_ucast_byte: "sint (ucast (b :: byte) :: int32) = uint b"
proof -
  have "uint b < 2 ^ 8" using uint_lt2p [of b] by simp
  then have "uint b < 2 ^ 31" by simp
  moreover have "- (2 ^ 31) \<le> uint b"
  proof -
    have "- (2 ^ 31) \<le> (0::int)" by simp
    also have "0 \<le> uint b" by simp
    finally show ?thesis .
  qed
  ultimately have "signed_take_bit 31 (uint b) = uint b"
    by (rule signed_take_bit_int_eq_self [rotated])
  then show ?thesis by (simp add: signed_ucast_eq)
qed

lemma pixel_0: "pixel 0 = 0"
  by (simp add: pixel_def float32_div_def float32_of_byte_def float32_round_def)

lemma pixel_err:
  "\<bar>pixel b - of_nat (unat b) / 255\<bar> \<le> of_nat (unat b) / 255 * 2 powi (- 24)"
proof (cases "unat b = 0")
  case True
  then show ?thesis
    by (simp add: pixel_def float32_div_def float32_of_byte_def float32_round_def)
next
  case False
  then have "0 < unat b" by simp
  then have "(0::rat) < of_nat (unat b)" by (simp only: of_nat_0_less_iff)
  then have "(0::rat) < of_nat (unat b) / 255" by (intro divide_pos_pos) simp_all
  from float32_round_err [OF this] show ?thesis
    by (simp add: pixel_def float32_div_def float32_of_byte_def)
qed

subsection \<open>The reader on complete files\<close>

text \<open>
  Claim C4. Let the image file hold a header of 16 bytes followed by \<open>N * E\<close> pixel
  bytes (and possibly more), and the label file a header of 8 bytes followed by \<open>N\<close>
  label bytes (and possibly more), for sizes \<open>N\<close> and \<open>E\<close> that \<open>make\<close> accepts. Then
  \<open>getMNISTRawData\<close> returns without error exactly
  \<open>N\<close> labels, label \<open>i\<close> being label byte \<open>i\<close> as a number, so between 0 and 255, and
  exactly \<open>N\<close> images of length \<open>E\<close>, component \<open>j\<close> of image \<open>i\<close> being pixel byte
  \<open>i * E + j\<close> divided by 255 in \<open>float32\<close>: a value between 0 and 1, the quotient of
  the byte by 255 rounded to \<open>float32\<close>, within a relative error of \<open>2 powi (-24)\<close> of the
  exact quotient.
\<close>

theorem getMNISTRawData_complete_files:
  assumes img: "fs imagesDataName = Inr (ihdr @ pixels @ irest)"
      and ih: "length ihdr = 16" and ip: "length pixels = N * E"
      and lbl: "fs labelsDataName = Inr (lhdr @ labels @ lrest)"
      and lh: "length lhdr = 8" and lp: "length labels = N"
      and ok: "makes_ok rt (int N) (int E)"
  shows "\<exists>tg dt.
           getMNISTRawData rt fs imagesDataName labelsDataName (int N) (int E) = Inr (tg, dt, None)
           \<and> length tg = N
           \<and> (\<forall>i<N. sint (tg ! i) = uint (labels ! i) \<and> 0 \<le> sint (tg ! i) \<and> sint (tg ! i) \<le> 255)
           \<and> length dt = N
           \<and> (\<forall>i<N. length (dt ! i) = E
                \<and> (\<forall>j<E. dt ! i ! j = float32_div (float32_of_byte (pixels ! (i * E + j))) 255
                      \<and> 0 \<le> dt ! i ! j \<and> dt ! i ! j \<le> 1
                      \<and> \<bar>dt ! i ! j - of_nat (unat (pixels ! (i * E + j))) / 255\<bar>
                           \<le> of_nat (unat (pixels ! (i * E + j))) / 255 * 2 powi (- 24)))"
proof -
  let ?ib = "ihdr @ pixels @ irest" and ?lb = "lhdr @ labels @ lrest"
  let ?tg = "map (\<lambda>k. ucast (byte_at ?lb (8 + k)) :: int32) [0..<N]"
  let ?dt = "map (\<lambda>k. map (\<lambda>j. pixel (byte_at ?ib (16 + (k * E + j)))) [0..<E]) [0..<N]"
  have r: "getMNISTRawData rt fs imagesDataName labelsDataName (int N) (int E) = Inr (?tg, ?dt, None)"
    using getMNISTRawData_eq [OF img lbl ok] by simp
  have lab: "byte_at ?lb (8 + i) = labels ! i" if "i < N" for i
    using that lh lp by (simp add: byte_at_def nth_append)
  have idx: "i * E + j < N * E" if "i < N" "j < E" for i j
  proof -
    have "i * E + j < i * E + E" using that by simp
    also have "\<dots> = Suc i * E" by simp
    also have "\<dots> \<le> N * E" using that by (intro mult_le_mono1) simp
    finally show ?thesis .
  qed
  have pix: "byte_at ?ib (16 + (i * E + j)) = pixels ! (i * E + j)" if "i < N" "j < E" for i j
    using idx [OF that] ih ip by (simp add: byte_at_def nth_append)
  have u255: "uint b \<le> 255" for b :: byte
    using uint_lt2p [of b] by simp
  have t: "\<forall>i<N. sint (?tg ! i) = uint (labels ! i) \<and> 0 \<le> sint (?tg ! i) \<and> sint (?tg ! i) \<le> 255"
    using u255 by (simp add: lab sint_ucast_byte)
  have d: "\<forall>i<N. length (?dt ! i) = E
                \<and> (\<forall>j<E. ?dt ! i ! j = float32_div (float32_of_byte (pixels ! (i * E + j))) 255
                      \<and> 0 \<le> ?dt ! i ! j \<and> ?dt ! i ! j \<le> 1
                      \<and> \<bar>?dt ! i ! j - of_nat (unat (pixels ! (i * E + j))) / 255\<bar>
                           \<le> of_nat (unat (pixels ! (i * E + j))) / 255 * 2 powi (- 24))"
  proof (intro allI impI conjI)
    fix i j assume ij: "i < N" "j < E"
    then have e: "?dt ! i ! j = pixel (pixels ! (i * E + j))" by (simp add: pix)
    show "?dt ! i ! j = float32_div (float32_of_byte (pixels ! (i * E + j))) 255"
      unfolding e by (simp add: pixel_def)
    show "0 \<le> ?dt ! i ! j" "?dt ! i ! j \<le> 1"
      unfolding e using pixel_unit by simp_all
    show "\<bar>?dt ! i ! j - of_nat (unat (pixels ! (i * E + j))) / 255\<bar>
            \<le> of_nat (unat (pixels ! (i * E + j))) / 255 * 2 powi (- 24)"
      unfolding e by (rule pixel_err)
  qed simp
  show ?thesis
    by (intro exI [of _ ?tg] exI [of _ ?dt] conjI r t d) simp_all
qed

text \<open>Two records of two pixels each.\<close>

theorem getMNISTRawData_complete_files_witness:
  "\<exists>tg dt. getMNISTRawData sample_runtime sample_fs ''images'' ''labels'' 2 2 = Inr (tg, dt, None)
     \<and> length tg = 2 \<and> sint (tg ! 0) = 3 \<and> sint (tg ! 1) = 200
     \<and> length dt = 2 \<and> length (dt ! 0) = 2 \<and> length (dt ! 1) = 2
     \<and> dt ! 0 ! 0 = float32_div (float32_of_byte 0) 255
     \<and> dt ! 0 ! 1 = float32_div (float32_of_byte 255) 255
     \<and> dt ! 1 ! 0 = float32_div (float32_of_byte 128) 255
     \<and> dt ! 1 ! 1 = float32_div (float32_of_byte 1) 255
     \<and> 0 \<le> dt ! 1 ! 1 \<and> dt ! 1 ! 1 \<le> 1"
proof -
  have img: "sample_fs ''images'' = Inr (replicate 16 7 @ [0, 255, 128, 1] @ [])"
    by (simp add: sample_fs_def)
  have lbl: "sample_fs ''labels'' = Inr (replicate 8 9 @ [3, 200] @ [])"
    by (simp add: sample_fs_def)
  have ih: "length (replicate 16 (7::byte)) = 16" by simp
  have lh: "length (replicate 8 (9::byte)) = 8" by simp
  have ip: "length [0, 255, 128, 1 :: byte] = 2 * 2" by simp
  have lp: "length [3, 200 :: byte] = 2" by simp
  have ok: "makes_ok sample_runtime (int 2) (int 2)"
    by (simp add: makes_ok_def make_ok_def sample_runtime_def)
  from getMNISTRawData_complete_files [OF img ih ip lbl lh lp ok]
  obtain tg dt where r: "getMNISTRawData sample_runtime sample_fs ''images'' ''labels'' (int 2) (int 2) = Inr (tg, dt, None)"
    and tl: "length tg = 2"
    and t: "\<forall>i<2. sint (tg ! i) = uint ([3, 200 :: byte] ! i) \<and> 0 \<le> sint (tg ! i) \<and> sint (tg ! i) \<le> 255"
    and dl: "length dt = 2"
    and d: "\<forall>i<2. length (dt ! i) = 2
                \<and> (\<forall>j<2. dt ! i ! j = float32_div (float32_of_byte ([0, 255, 128, 1] ! (i * 2 + j))) 255
                      \<and> 0 \<le> dt ! i ! j \<and> dt ! i ! j \<le> 1
                      \<and> \<bar>dt ! i ! j - of_nat (unat ([0, 255, 128, 1 :: byte] ! (i * 2 + j))) / 255\<bar>
                           \<le> of_nat (unat ([0, 255, 128, 1 :: byte] ! (i * 2 + j))) / 255 * 2 powi (- 24))"
    by blast
  have t0: "sint (tg ! 0) = 3" using t [rule_format, of 0] by simp
  have t1: "sint (tg ! 1) = 200" using t [rule_format, of 1] by simp
  have d0: "length (dt ! 0) = 2" using d [rule_format, of 0] by simp
  have d1: "length (dt ! 1) = 2" using d [rule_format, of 1] by simp
  have d00: "dt ! 0 ! 0 = float32_div (float32_of_byte 0) 255"
    using d [rule_format, of 0, THEN conjunct2, rule_format, of 0] by simp
  have d01: "dt ! 0 ! 1 = float32_div (float32_of_byte 255) 255"
    using d [rule_format, of 0, THEN conjunct2, rule_format, of 1] by simp
  have d10: "dt ! 1 ! 0 = float32_div (float32_of_byte 128) 255"
    using d [rule_format, of 1, THEN conjunct2, rule_format, of 0] by simp
  have d11: "dt ! 1 ! 1 = float32_div (float32_of_byte 1) 255 \<and> 0 \<le> dt ! 1 ! 1 \<and> dt ! 1 ! 1 \<le> 1"
    using d [rule_format, of 1, THEN conjunct2, rule_format, of 1] by simp
  from r have r': "getMNISTRawData sample_runtime sample_fs ''images'' ''labels'' 2 2 = Inr (tg, dt, None)" by simp
  show ?thesis
    using r' tl t0 t1 dl d0 d1 d00 d01 d10 d11 by blast
qed

subsection \<open>The reader on short files\<close>

text \<open>
  Claim C10. When both files open, and the sizes are ones that \<open>make\<close> accepts (not
  negative and not beyond what the run-time system gives to a slice; otherwise \<open>make\<close>
  panics before any byte is read), \<open>getMNISTRawData\<close> returns no error whatever the
  lengths of the files are. It returns \<open>dataSize\<close> labels and \<open>dataSize\<close> images of
  \<open>imageElemSize\<close> components; a label or a pixel at an offset inside its file is read
  from the file, and every label or pixel at an offset past the end of its file is the
  zero byte: label 0, pixel 0.
\<close>

theorem getMNISTRawData_short_files:
  assumes img: "fs imagesDataName = Inr ib" and lbl: "fs labelsDataName = Inr lb"
      and ok: "makes_ok rt N E"
  shows "\<exists>tg dt.
           getMNISTRawData rt fs imagesDataName labelsDataName N E = Inr (tg, dt, None)
           \<and> length tg = nat N \<and> length dt = nat N
           \<and> (\<forall>i<nat N.
                 (8 + i < length lb \<longrightarrow> tg ! i = ucast (lb ! (8 + i)))
               \<and> (length lb \<le> 8 + i \<longrightarrow> tg ! i = 0 \<and> sint (tg ! i) = 0)
               \<and> length (dt ! i) = nat E
               \<and> (\<forall>j<nat E.
                     (16 + (i * nat E + j) < length ib \<longrightarrow>
                        dt ! i ! j = float32_div (float32_of_byte (ib ! (16 + (i * nat E + j)))) 255)
                   \<and> (length ib \<le> 16 + (i * nat E + j) \<longrightarrow> dt ! i ! j = 0)))"
proof -
  let ?tg = "map (\<lambda>k. ucast (byte_at lb (8 + k)) :: int32) [0..<nat N]"
  let ?dt = "map (\<lambda>k. map (\<lambda>j. pixel (byte_at ib (16 + (k * nat E + j)))) [0..<nat E]) [0..<nat N]"
  have r: "getMNISTRawData rt fs imagesDataName labelsDataName N E = Inr (?tg, ?dt, None)"
  proof (cases "0 \<le> E")
    case True
    then show ?thesis by (rule getMNISTRawData_eq [OF img lbl ok])
  next
    case False
    with ok have "N = 0" by (auto simp: makes_ok_def make_ok_def)
    with img lbl ok show ?thesis
      by (simp add: getMNISTRawData_def reader_def makes_ok_def read_records.simps [of 0 0])
  qed
  have p: "\<forall>i<nat N.
                 (8 + i < length lb \<longrightarrow> ?tg ! i = ucast (lb ! (8 + i)))
               \<and> (length lb \<le> 8 + i \<longrightarrow> ?tg ! i = 0 \<and> sint (?tg ! i) = 0)
               \<and> length (?dt ! i) = nat E
               \<and> (\<forall>j<nat E.
                     (16 + (i * nat E + j) < length ib \<longrightarrow>
                        ?dt ! i ! j = float32_div (float32_of_byte (ib ! (16 + (i * nat E + j)))) 255)
                   \<and> (length ib \<le> 16 + (i * nat E + j) \<longrightarrow> ?dt ! i ! j = 0))"
    by (simp add: byte_at_def pixel_0) (simp add: pixel_def)
  show ?thesis
    by (intro exI [of _ ?tg] exI [of _ ?dt] conjI r p) simp_all
qed

lemma list_of_2: "length xs = 2 \<Longrightarrow> xs = [xs ! 0, xs ! 1]"
  by (auto simp: length_Suc_conv numeral_2_eq_2)

lemma list_of_3: "length xs = 3 \<Longrightarrow> xs = [xs ! 0, xs ! 1, xs ! 2]"
  by (auto simp: length_Suc_conv numeral_3_eq_3 numeral_2_eq_2)

text \<open>
  The files of two records, read as three: the third label and the third image are past
  the end.
\<close>

theorem getMNISTRawData_short_files_witness:
  "getMNISTRawData sample_runtime sample_fs ''images'' ''labels'' 3 2 =
     Inr ([3, 200, 0],
          [[0, 1], [float32_div (float32_of_byte 128) 255, float32_div (float32_of_byte 1) 255], [0, 0]],
          None)"
proof -
  have img: "sample_fs ''images'' = Inr (replicate 16 7 @ [0, 255, 128, 1])"
    by (simp add: sample_fs_def)
  have lbl: "sample_fs ''labels'' = Inr (replicate 8 9 @ [3, 200])"
    by (simp add: sample_fs_def)
  have ok: "makes_ok sample_runtime 3 2"
    by (simp add: makes_ok_def make_ok_def sample_runtime_def)
  from getMNISTRawData_short_files [OF img lbl ok]
  obtain tg dt where r: "getMNISTRawData sample_runtime sample_fs ''images'' ''labels'' 3 2 = Inr (tg, dt, None)"
    and tl: "length tg = 3" and dl: "length dt = 3"
    and p: "\<forall>i<3.
                 (8 + i < 10 \<longrightarrow> tg ! i = ucast ((replicate 8 9 @ [3, 200 :: byte]) ! (8 + i)))
               \<and> (10 \<le> 8 + i \<longrightarrow> tg ! i = 0 \<and> sint (tg ! i) = 0)
               \<and> length (dt ! i) = 2
               \<and> (\<forall>j<2.
                     (16 + (i * 2 + j) < 20 \<longrightarrow>
                        dt ! i ! j = float32_div (float32_of_byte ((replicate 16 7 @ [0, 255, 128, 1 :: byte]) ! (16 + (i * 2 + j)))) 255)
                   \<and> (20 \<le> 16 + (i * 2 + j) \<longrightarrow> dt ! i ! j = 0))"
    by auto
  have t3: "tg = [tg ! 0, tg ! 1, tg ! 2]"
    using tl by (rule list_of_3)
  have d3: "dt = [dt ! 0, dt ! 1, dt ! 2]"
    using dl by (rule list_of_3)
  have row: "length (dt ! i) = 2 \<Longrightarrow> dt ! i = [dt ! i ! 0, dt ! i ! 1]" for i
    by (rule list_of_2)
  have one: "float32_div (float32_of_byte 255) 255 = 1"
    by (simp add: float32_div_def float32_of_byte_def float32_round_def ilog2_def
        round_half_even_def compute_floorlog Let_def)
  have zero: "float32_div (float32_of_byte 0) 255 = 0"
    by (simp add: float32_div_def float32_of_byte_def float32_round_def)
  have tv: "tg ! 0 = 3" "tg ! 1 = 200" "tg ! 2 = 0"
    using p [rule_format, of 0] p [rule_format, of 1] p [rule_format, of 2]
    by (simp_all add: nth_append)
  have r0: "dt ! 0 = [0, 1]"
    using p [rule_format, of 0, THEN conjunct2, THEN conjunct2, THEN conjunct2, rule_format, of 0]
          p [rule_format, of 0, THEN conjunct2, THEN conjunct2, THEN conjunct2, rule_format, of 1]
          row [of 0] p [rule_format, of 0]
    by (simp add: one zero nth_append)
  have r1: "dt ! 1 = [float32_div (float32_of_byte 128) 255, float32_div (float32_of_byte 1) 255]"
    using p [rule_format, of 1, THEN conjunct2, THEN conjunct2, THEN conjunct2, rule_format, of 0]
          p [rule_format, of 1, THEN conjunct2, THEN conjunct2, THEN conjunct2, rule_format, of 1]
          row [of 1] p [rule_format, of 1]
    by (simp add: nth_append)
  have r2: "dt ! 2 = [0, 0]"
    using p [rule_format, of 2, THEN conjunct2, THEN conjunct2, THEN conjunct2, rule_format, of 0]
          p [rule_format, of 2, THEN conjunct2, THEN conjunct2, THEN conjunct2, rule_format, of 1]
          row [of 2] p [rule_format, of 2]
    by simp
  show ?thesis
    unfolding r using tv r0 r1 r2 by (subst t3, subst d3) simp
qed

subsection \<open>The emission loop\<close>

lemma emit_from_step:
  assumes "i < nat (dataSize s)" "length (data s) = nat (dataSize s)" "length (target s) = nat (dataSize s)"
  shows "emit_from env s i (map (record_at env s) [0..<i]) =
           (if halts (answer env s i) then Inr (map (record_at env s) [0..<Suc i], [], answer env s i)
            else emit_from env s (Suc i) (map (record_at env s) [0..<Suc i]))"
proof -
  have c: "int i < dataSize s" using assms(1) by linarith
  show ?thesis
    using assms c
    by (subst emit_from.simps) (simp add: Let_def record_at_def [symmetric] answer_def halts_def)
qed

lemma emit_from_all:
  assumes "length (data s) = nat (dataSize s)" "length (target s) = nat (dataSize s)"
  shows "i \<le> nat (dataSize s) \<Longrightarrow> (\<forall>k. i \<le> k \<and> k < nat (dataSize s) \<longrightarrow> \<not> halts (answer env s k)) \<Longrightarrow>
         emit_from env s i (map (record_at env s) [0..<i]) =
           Inr (map (record_at env s) [0..<nat (dataSize s)], [''all MNIST data has been streaming''], None)"
proof (induction "nat (dataSize s) - i" arbitrary: i)
  case 0
  then have "i = nat (dataSize s)" by simp
  then show ?case by (subst emit_from.simps) simp
next
  case (Suc d)
  then have i: "i < nat (dataSize s)" by simp
  have nh: "\<not> halts (answer env s i)" using Suc.prems i by simp
  have "emit_from env s (Suc i) (map (record_at env s) [0..<Suc i]) =
           Inr (map (record_at env s) [0..<nat (dataSize s)], [''all MNIST data has been streaming''], None)"
    using Suc.hyps(2) Suc.prems i by (intro Suc.hyps(1)) auto
  then show ?case
    using emit_from_step [OF i assms, of env] nh by simp
qed

lemma emit_from_halt:
  assumes "length (data s) = nat (dataSize s)" "length (target s) = nat (dataSize s)"
      and "n < nat (dataSize s)" "halts (answer env s n)"
  shows "i \<le> n \<Longrightarrow> (\<forall>k. i \<le> k \<and> k < n \<longrightarrow> \<not> halts (answer env s k)) \<Longrightarrow>
         emit_from env s i (map (record_at env s) [0..<i]) =
           Inr (map (record_at env s) [0..<Suc n], [], answer env s n)"
proof (induction "n - i" arbitrary: i)
  case 0
  then have "i = n" by simp
  then show ?case
    using emit_from_step [OF assms(3) assms(1,2), of env] assms(4) by simp
next
  case (Suc d)
  then have i: "i < n" by simp
  then have i': "i < nat (dataSize s)" using assms(3) by simp
  have nh: "\<not> halts (answer env s i)" using Suc.prems i by simp
  have "emit_from env s (Suc i) (map (record_at env s) [0..<Suc i]) =
           Inr (map (record_at env s) [0..<Suc n], [], answer env s n)"
    using Suc.hyps(2) Suc.prems i by (intro Suc.hyps(1)) auto
  then show ?case
    using emit_from_step [OF i' assms(1,2), of env] nh by simp
qed

lemma ramdomPermutaion_from_total:
  assumes "in_range Intn"
  shows "i \<le> length perm \<Longrightarrow> \<exists>p. ramdomPermutaion_from Intn i perm = Inr p \<and> mset p = mset perm"
proof (induction "length perm - i" arbitrary: i perm)
  case 0
  then have "\<not> i < length perm" by simp
  then show ?case by (subst ramdomPermutaion_from.simps) simp
next
  case (Suc d)
  then have i: "i < length perm" by simp
  define j where "j = Intn i (int i + 1)"
  have j: "0 \<le> j" "j < int i + 1"
    using assms unfolding in_range_def j_def by (metis add_pos_nonneg of_nat_0_le_iff zero_less_one add.commute)+
  then have jl: "nat j < length perm" using i by simp
  let ?perm' = "perm[i := perm ! nat j, nat j := perm ! i]"
  have "\<exists>p. ramdomPermutaion_from Intn (Suc i) ?perm' = Inr p \<and> mset p = mset ?perm'"
    using Suc.hyps(2) i by (intro Suc.hyps(1)) simp_all
  moreover have "mset ?perm' = mset perm"
    using i jl by (simp add: mset_swap)
  moreover have "ramdomPermutaion_from Intn i perm = ramdomPermutaion_from Intn (Suc i) ?perm'"
    using i j jl by (subst ramdomPermutaion_from.simps) (simp add: Let_def j_def [symmetric])
  ultimately show ?case by simp
qed

lemma GenerateStream_emit:
  assumes "0 \<le> dataSize s" "randomFlag s \<longrightarrow> in_range (rand_Intn env)"
  shows "GenerateStream env s = emit_from env s 0 []"
proof (cases "randomFlag s")
  case False
  with assms show ?thesis by (simp add: GenerateStream_def)
next
  case True
  with assms have "in_range (rand_Intn env)" by simp
  from ramdomPermutaion_from_total [OF this, of 0 "map int [0..<nat (dataSize s)]"]
  obtain p where "ramdomPermutaion (rand_Intn env) (map int [0..<nat (dataSize s)]) = Inr p"
    by (auto simp: ramdomPermutaion_def)
  with assms True show ?thesis by (simp add: GenerateStream_def)
qed

subsection \<open>Halting on a signal of the writer\<close>

text \<open>
  Claim C5. For a source whose arrays have \<open>dataSize\<close> entries (and a random number
  generator that keeps the contract of \<open>rand.Intn\<close> when the random flag is set): if the
  writer answers the record of index \<open>n\<close>, the \<open>(n + 1)\<close>-th record, with
  \<open>ErrSourceRewound\<close> or \<open>ErrSourceStopped\<close>, and answered no earlier record so, then
  \<open>GenerateStream\<close> has written exactly the records of index \<open>0\<close> to \<open>n\<close>, logs nothing
  and returns that signal; whatever else the writer answered for the earlier records,
  errors included, did not end the loop. If the writer answers no record with one of the
  two signals, all \<open>dataSize\<close> records are written, the completion is logged and the
  result is no error.
\<close>

theorem GenerateStream_halting:
  assumes wf: "0 \<le> dataSize s" "length (data s) = nat (dataSize s)"
              "length (target s) = nat (dataSize s)"
      and rng: "randomFlag s \<longrightarrow> in_range (rand_Intn env)"
  shows "(n < nat (dataSize s) \<and> (\<forall>k<n. \<not> halts (answer env s k)) \<and> halts (answer env s n) \<longrightarrow>
            GenerateStream env s = Inr (map (record_at env s) [0..<Suc n], [], answer env s n))
       \<and> ((\<forall>k<nat (dataSize s). \<not> halts (answer env s k)) \<longrightarrow>
            GenerateStream env s =
              Inr (map (record_at env s) [0..<nat (dataSize s)],
                   [''all MNIST data has been streaming''], None))"
proof (intro conjI impI)
  assume a: "n < nat (dataSize s) \<and> (\<forall>k<n. \<not> halts (answer env s k)) \<and> halts (answer env s n)"
  then have "emit_from env s 0 (map (record_at env s) [0..<0]) =
               Inr (map (record_at env s) [0..<Suc n], [], answer env s n)"
    using wf by (intro emit_from_halt) simp_all
  then show "GenerateStream env s = Inr (map (record_at env s) [0..<Suc n], [], answer env s n)"
    using GenerateStream_emit [OF wf(1) rng] by simp
next
  assume "\<forall>k<nat (dataSize s). \<not> halts (answer env s k)"
  then have "emit_from env s 0 (map (record_at env s) [0..<0]) =
               Inr (map (record_at env s) [0..<nat (dataSize s)],
                    [''all MNIST data has been streaming''], None)"
    using wf by (intro emit_from_all) simp_all
  then show "GenerateStream env s =
               Inr (map (record_at env s) [0..<nat (dataSize s)],
                    [''all MNIST data has been streaming''], None)"
    using GenerateStream_emit [OF wf(1) rng] by simp
qed

lemma sample_in_range: "in_range (rand_Intn (sample_env w))"
  by (simp add: in_range_def sample_env_def)

text \<open>
  A writer that fails on the first record and stops at the second: two records are
  written and \<open>ErrSourceStopped\<close> is returned. A writer that only fails on the second
  record: all three are written.
\<close>

theorem GenerateStream_halting_witness:
  "GenerateStream (sample_env stop_at_second) sample_source =
     Inr ([record_at (sample_env stop_at_second) sample_source 0,
           record_at (sample_env stop_at_second) sample_source 1], [], Some ErrSourceStopped)
   \<and> GenerateStream (sample_env never_stop) sample_source =
     Inr ([record_at (sample_env never_stop) sample_source 0,
           record_at (sample_env never_stop) sample_source 1,
           record_at (sample_env never_stop) sample_source 2],
          [''all MNIST data has been streaming''], None)"
proof -
  have wf: "0 \<le> dataSize sample_source" "length (data sample_source) = nat (dataSize sample_source)"
           "length (target sample_source) = nat (dataSize sample_source)"
    by (simp_all add: sample_source_def)
  have n: "nat (dataSize sample_source) = 3" by (simp add: sample_source_def)
  have rng: "randomFlag sample_source \<longrightarrow> in_range (rand_Intn (sample_env w))" for w
    by (simp add: sample_in_range)
  have a: "answer (sample_env stop_at_second) sample_source 0 = Some (Error ''full'')"
          "answer (sample_env stop_at_second) sample_source 1 = Some ErrSourceStopped"
    by (simp_all add: answer_def sample_env_def stop_at_second_def)
  have b: "answer (sample_env never_stop) sample_source 0 = None"
          "answer (sample_env never_stop) sample_source 1 = Some (Error ''full'')"
          "answer (sample_env never_stop) sample_source 2 = None"
    by (simp_all add: answer_def sample_env_def never_stop_def)
  have u: "[0..<Suc 1] = [0, 1]" "[0..<3] = [0, 1, 2]"
    by (simp_all add: upt_rec)
  have h1: "1 < nat (dataSize sample_source)
            \<and> (\<forall>k<1. \<not> halts (answer (sample_env stop_at_second) sample_source k))
            \<and> halts (answer (sample_env stop_at_second) sample_source 1)"
    using a by (simp add: n halts_def)
  have h2: "\<forall>k<nat (dataSize sample_source). \<not> halts (answer (sample_env never_stop) sample_source k)"
    using b by (simp add: n halts_def less_Suc_eq numeral_3_eq_3 numeral_2_eq_2)
  show ?thesis
    using GenerateStream_halting [OF wf rng [of stop_at_second], where n = 1,
            THEN conjunct1, THEN mp, OF h1]
          GenerateStream_halting [OF wf rng [of never_stop], where n = 1,
            THEN conjunct2, THEN mp, OF h2]
    using a u by (simp add: n)
qed

subsection \<open>The order of emission\<close>

text \<open>
  The permutation is computed and not read again: the emission loop indexes \<open>s.data\<close> and
  \<open>s.target\<close> with the loop counter. So the stream is the same with and without the
  random flag.
\<close>

lemma GenerateStream_randomFlag:
  assumes "0 \<le> dataSize s" "in_range (rand_Intn env)"
  shows "GenerateStream env (s\<lparr>randomFlag := True\<rparr>) = GenerateStream env (s\<lparr>randomFlag := False\<rparr>)"
proof -
  have e: "emit_from env (s\<lparr>randomFlag := b\<rparr>) i ws = emit_from env s i ws" for b i ws
  proof (induction env s i ws rule: emit_from.induct)
    case (1 env s i ws)
    show ?case
      by (subst emit_from.simps, subst (2) emit_from.simps) (simp add: Let_def 1)
  qed
  show ?thesis
    using assms by (simp add: GenerateStream_emit e)
qed

text \<open>
  Claim C3, at a source of three records with the random flag set, and \<open>rand.Intn\<close>
  answering 0 each time: \<open>ramdomPermutaion\<close> turns the identity \<open>[0, 1, 2]\<close> into
  \<open>[2, 0, 1]\<close>, and \<open>GenerateStream\<close> writes the records in the order 0, 1, 2 (the labels
  7, 8, 9), not in the order 2, 0, 1 of the permutation.
\<close>

theorem GenerateStream_ignores_permutation:
  "ramdomPermutaion (rand_Intn (sample_env never_stop)) [0, 1, 2] = Inr [2, 0, 1]
   \<and> randomFlag sample_source
   \<and> GenerateStream (sample_env never_stop) sample_source =
       Inr ([\<lparr>Data = [(''label'', IntV 7), (''data'', Array [Float 0, Float 1])],
              Timestamp = 100, ProcTimestamp = 100, Trace = []\<rparr>,
             \<lparr>Data = [(''label'', IntV 8), (''data'', Array [Float (1 / 2), Float (1 / 4)])],
              Timestamp = 101, ProcTimestamp = 101, Trace = []\<rparr>,
             \<lparr>Data = [(''label'', IntV 9), (''data'', Array [Float 1, Float 1])],
              Timestamp = 102, ProcTimestamp = 102, Trace = []\<rparr>],
            [''all MNIST data has been streaming''], None)"
  by (simp add: GenerateStream_def ramdomPermutaion_def ramdomPermutaion_from.simps emit_from.simps
      sample_env_def sample_source_def never_stop_def upt_rec)


section \<open>Properties of package mlstate\<close>

lemma Write_below:
  "int (length (bucket s)) + 1 < batchSize s \<Longrightarrow>
   Write ex s tr t = (s\<lparr>bucket := bucket s @ [Map (Data t)]\<rparr>, tr, None)"
  by (simp add: Write_def)

lemma fit_calls_append: "fit_calls (xs @ ys) = fit_calls xs @ fit_calls ys"
  by (induction xs rule: fit_calls.induct) simp_all

lemma Write_at:
  assumes "batchSize s \<le> int (length (bucket s)) + 1"
  shows "\<exists>lg. Write ex s tr t =
            (s\<lparr>bucket := []\<rparr>,
             tr @ Call (ins s) ''fit'' (Array (bucket s @ [Map (Data t)])) # lg,
             snd (ins_Call ex tr (ins s) ''fit'' (Array (bucket s @ [Map (Data t)]))))
          \<and> fit_calls lg = []"
  using assms
  by (auto simp: Write_def Fit_def Let_def split: prod.splits sum.splits)

lemma Writes_below:
  "int (length (bucket s) + length ts) < batchSize s \<Longrightarrow>
   Writes ex s tr ts = (s\<lparr>bucket := bucket s @ map (Map \<circ> Data) ts\<rparr>, tr, replicate (length ts) None)"
proof (induction ts arbitrary: s)
  case Nil
  then show ?case by simp
next
  case (Cons t ts)
  have w: "Write ex s tr t = (s\<lparr>bucket := bucket s @ [Map (Data t)]\<rparr>, tr, None)"
    using Cons.prems by (intro Write_below) simp
  have "Writes ex (s\<lparr>bucket := bucket s @ [Map (Data t)]\<rparr>) tr ts =
        (s\<lparr>bucket := bucket s @ [Map (Data t)]\<rparr>\<lparr>bucket := bucket (s\<lparr>bucket := bucket s @ [Map (Data t)]\<rparr>) @ map (Map \<circ> Data) ts\<rparr>, tr, replicate (length ts) None)"
    using Cons.prems by (intro Cons.IH) simp
  with w show ?case by simp
qed

lemma Writes_snoc:
  "Writes ex s tr (ts @ [t]) =
     (case Writes ex s tr ts of (s1, tr1, es) \<Rightarrow>
        (case Write ex s1 tr1 t of (s2, tr2, e) \<Rightarrow> (s2, tr2, es @ [e])))"
  by (induction ts arbitrary: s tr) (auto split: prod.splits)


subsection \<open>The batch threshold\<close>

text \<open>
  Claim C1. Let the batch size be \<open>k \<ge> 1\<close> and the bucket hold fewer than \<open>k\<close> records
  (none, for a new state). A sequence of \<open>Write\<close> calls that leaves the number of
  buffered records below \<open>k\<close> adds no event at all, so no \<open>fit\<close> call, and the records
  are in the bucket in the order written. A sequence that brings the number to exactly
  \<open>k\<close> adds exactly one \<open>fit\<close> call, on the instance of the state, whose argument is
  the array of exactly those \<open>k\<close> records in the order written, and the bucket has
  length 0 when the last \<open>Write\<close> returns.
\<close>

theorem Write_batch_threshold:
  assumes k: "1 \<le> k" "batchSize s = k" and b: "int (length (bucket s)) < k"
  shows "(int (length (bucket s) + length ts) < k \<longrightarrow>
            (case Writes ex s tr ts of (s', tr', es) \<Rightarrow>
               tr' = tr \<and> fit_calls tr' = fit_calls tr \<and> bucket s' = bucket s @ map (Map \<circ> Data) ts))
       \<and> (int (length (bucket s) + length ts) = k \<longrightarrow>
            (case Writes ex s tr ts of (s', tr', es) \<Rightarrow>
               fit_calls tr' = fit_calls tr @ [(ins s, Array (bucket s @ map (Map \<circ> Data) ts))]
               \<and> length (bucket s') = 0))"
proof (intro conjI impI)
  assume "int (length (bucket s) + length ts) < k"
  then show "case Writes ex s tr ts of (s', tr', es) \<Rightarrow>
               tr' = tr \<and> fit_calls tr' = fit_calls tr \<and> bucket s' = bucket s @ map (Map \<circ> Data) ts"
    using k by (simp add: Writes_below)
next
  assume full: "int (length (bucket s) + length ts) = k"
  with b have "ts \<noteq> []" by auto
  then obtain ts0 t where ts: "ts = ts0 @ [t]"
    by (metis rev_exhaust)
  let ?s1 = "s\<lparr>bucket := bucket s @ map (Map \<circ> Data) ts0\<rparr>"
  have pre: "Writes ex s tr ts0 = (?s1, tr, replicate (length ts0) None)"
    using full k ts by (intro Writes_below) simp
  have "batchSize ?s1 \<le> int (length (bucket ?s1)) + 1"
    using full k ts by simp
  from Write_at [OF this, of ex tr t]
  obtain lg where w: "Write ex ?s1 tr t =
            (?s1\<lparr>bucket := []\<rparr>,
             tr @ Call (ins ?s1) ''fit'' (Array (bucket ?s1 @ [Map (Data t)])) # lg,
             snd (ins_Call ex tr (ins ?s1) ''fit'' (Array (bucket ?s1 @ [Map (Data t)]))))"
     and lg: "fit_calls lg = []"
    by blast
  show "case Writes ex s tr ts of (s', tr', es) \<Rightarrow>
               fit_calls tr' = fit_calls tr @ [(ins s, Array (bucket s @ map (Map \<circ> Data) ts))]
               \<and> length (bucket s') = 0"
    unfolding ts Writes_snoc pre using w lg
    by (simp add: fit_calls_append)
qed

text \<open>
  With batch size 2 on a new state: one write calls nothing, two writes call \<open>fit\<close> once
  with both records.
\<close>

theorem Write_batch_threshold_witness:
  "(case Writes (sample_extern (String ''done'', None)) (sample_state 2) [] [sample_tuple 1] of
      (s', tr', es) \<Rightarrow> tr' = [] \<and> bucket s' = [Map (Data (sample_tuple 1))])
   \<and> (case Writes (sample_extern (String ''done'', None)) (sample_state 2) []
             [sample_tuple 1, sample_tuple 2] of
      (s', tr', es) \<Rightarrow>
        fit_calls tr' = [(2, Array [Map (Data (sample_tuple 1)), Map (Data (sample_tuple 2))])]
        \<and> length (bucket s') = 0)"
proof -
  let ?ex = "sample_extern (String ''done'', None)"
  have h1: "(1::int) \<le> 2" by simp
  have h2: "batchSize (sample_state 2) = 2" by (simp add: sample_state_def)
  have h3: "int (length (bucket (sample_state 2))) < 2" by (simp add: sample_state_def)
  have b: "bucket (sample_state 2) = []" "ins (sample_state 2) = 2" by (simp_all add: sample_state_def)
  show ?thesis
    using Write_batch_threshold [OF h1 h2 h3, where ts = "[sample_tuple 1]" and ex = ?ex and tr = "[]"]
          Write_batch_threshold [OF h1 h2 h3, where ts = "[sample_tuple 1, sample_tuple 2]" and ex = ?ex and tr = "[]"]
    by (auto simp: b split: prod.splits)
qed

subsection \<open>A failing fit\<close>

text \<open>
  Claim C2. When the append brings the bucket to the batch size and the \<open>fit\<close> call
  returns the error \<open>e\<close> (with whatever value \<open>m\<close>), \<open>Write\<close> returns that same error,
  and the bucket is empty afterwards: the records are dropped, not kept for a retry. This
  holds for every behaviour of \<open>data.AsMap\<close>, \<open>Get\<close> and \<open>data.ToFloat\<close> on \<open>m\<close>.
\<close>

theorem Write_fit_failure:
  assumes "batchSize s \<le> int (length (bucket s)) + 1"
      and "ins_Call ex tr (ins s) ''fit'' (Array (bucket s @ [Map (Data t)])) = (m, Some e)"
  shows "case Write ex s tr t of (s', tr', err) \<Rightarrow> err = Some e \<and> bucket s' = []"
  using assms
  by (auto simp: Write_def Fit_def Let_def split: prod.splits sum.splits)

text \<open>A \<open>fit\<close> that fails with the nil value, batch size 1.\<close>

theorem Write_fit_failure_witness:
  "(case Write (sample_extern (NilValue, Some (Error ''fit failed''))) (sample_state 1) [] (sample_tuple 1) of
      (s', tr', err) \<Rightarrow> err = Some (Error ''fit failed'') \<and> bucket s' = [])"
  using Write_fit_failure [where s = "sample_state 1"
          and ex = "sample_extern (NilValue, Some (Error ''fit failed''))"
          and tr = "[]" and t = "sample_tuple 1" and m = NilValue and e = "Error ''fit failed''"]
  by (simp add: sample_state_def sample_extern_def)

subsection \<open>A successful fit of any shape\<close>

text \<open>
  Claim C7. When the append brings the bucket to the batch size and the \<open>fit\<close> call
  returns no error, \<open>Write\<close> returns no error, whatever the result of \<open>fit\<close> is and
  whatever \<open>data.AsMap\<close>, \<open>Get\<close> and \<open>data.ToFloat\<close> make of it: not a map, no loss, no
  accuracy, or a loss or accuracy that is not a number.
\<close>

theorem Write_fit_success:
  assumes "batchSize s \<le> int (length (bucket s)) + 1"
      and "snd (ins_Call ex tr (ins s) ''fit'' (Array (bucket s @ [Map (Data t)]))) = None"
  shows "case Write ex s tr t of (s', tr', err) \<Rightarrow> err = None"
  using assms
  by (auto simp: Write_def Fit_def Let_def split: prod.splits sum.splits)

text \<open>
  Results of \<open>fit\<close> that are not a map, lack the loss, lack the accuracy, have a loss
  or an accuracy that is not a number, and have both.
\<close>

theorem Write_fit_success_witness:
  "(case Write (sample_extern (String ''done'', None)) (sample_state 1) [] (sample_tuple 1) of
      (s', tr', err) \<Rightarrow> err = None)
   \<and> (case Write (sample_extern (Map [(''accuracy'', Float 1)], None)) (sample_state 1) [] (sample_tuple 1) of
      (s', tr', err) \<Rightarrow> err = None)
   \<and> (case Write (sample_extern (Map [(''loss'', Float 1)], None)) (sample_state 1) [] (sample_tuple 1) of
      (s', tr', err) \<Rightarrow> err = None)
   \<and> (case Write (sample_extern (Map [(''loss'', String ''x''), (''accuracy'', Float 1)], None)) (sample_state 1) [] (sample_tuple 1) of
      (s', tr', err) \<Rightarrow> err = None)
   \<and> (case Write (sample_extern (Map [(''loss'', Float 1), (''accuracy'', Null)], None)) (sample_state 1) [] (sample_tuple 1) of
      (s', tr', err) \<Rightarrow> err = None)
   \<and> (case Write (sample_extern (Map [(''loss'', Float 1), (''accuracy'', IntV 2)], None)) (sample_state 1) [] (sample_tuple 1) of
      (s', tr', err) \<Rightarrow> err = None)"
  using Write_fit_success [where s = "sample_state 1" and ex = "sample_extern (String ''done'', None)" and tr = "[]" and t = "sample_tuple 1"]
        Write_fit_success [where s = "sample_state 1" and ex = "sample_extern (Map [(''accuracy'', Float 1)], None)" and tr = "[]" and t = "sample_tuple 1"]
        Write_fit_success [where s = "sample_state 1" and ex = "sample_extern (Map [(''loss'', Float 1)], None)" and tr = "[]" and t = "sample_tuple 1"]
        Write_fit_success [where s = "sample_state 1" and ex = "sample_extern (Map [(''loss'', String ''x''), (''accuracy'', Float 1)], None)" and tr = "[]" and t = "sample_tuple 1"]
        Write_fit_success [where s = "sample_state 1" and ex = "sample_extern (Map [(''loss'', Float 1), (''accuracy'', Null)], None)" and tr = "[]" and t = "sample_tuple 1"]
        Write_fit_success [where s = "sample_state 1" and ex = "sample_extern (Map [(''loss'', Float 1), (''accuracy'', IntV 2)], None)" and tr = "[]" and t = "sample_tuple 1"]
  by (simp add: sample_state_def sample_extern_def)

subsection \<open>The invariant of the bucket\<close>

text \<open>On a 64-bit platform \<open>NewPyMLState\<close> panics for a batch size of \<open>2 ^ 62\<close>.\<close>

lemma NewPyMLState_large_batchSize:
  "NewPyMLState sample_runtime (sample_extern (String ''done'', None)) [] ''/opt/models'' ''mlp''
     ''MLP'' (2 ^ 62) ''mlp.model'' = Inl MakesliceOutOfRange"
  by (simp add: NewPyMLState_def sample_extern_def make_ok_def sample_runtime_def)

lemma Write_bucket_inv:
  assumes "0 < batchSize s"
  shows "bucket_inv (fst (Write ex s tr t)) \<and> batchSize (fst (Write ex s tr t)) = batchSize s"
  using assms
  by (auto simp: Write_def Fit_def Let_def bucket_inv_def split: prod.splits sum.splits)

lemma Writes_bucket_inv:
  "0 < batchSize s \<Longrightarrow> bucket_inv s \<Longrightarrow>
   bucket_inv (fst (Writes ex s tr ts)) \<and> batchSize (fst (Writes ex s tr ts)) = batchSize s"
proof (induction ts arbitrary: s tr)
  case Nil
  then show ?case by simp
next
  case (Cons t ts)
  obtain s1 tr1 e where w: "Write ex s tr t = (s1, tr1, e)" by (cases "Write ex s tr t")
  with Write_bucket_inv [OF Cons.prems(1), of ex tr t]
  have s1: "bucket_inv s1" "batchSize s1 = batchSize s" by simp_all
  with Cons.prems have "0 < batchSize s1" by simp
  from Cons.IH [OF this s1(1), of tr1] s1 w show ?case
    by (cases "Writes ex s1 tr1 ts") simp
qed

lemma lookupPyMLState_Inr:
  "lookupPyMLState ctx stateName = Inr s \<Longrightarrow> SharedStates ctx stateName = Inr (PyML s)"
  by (auto simp: lookupPyMLState_def split: sum.splits SharedState.splits)

lemma PyMLFit_SharedStates: "SharedStates (fst (PyMLFit ex ctx stateName bkts)) = SharedStates ctx"
proof (cases "lookupPyMLState ctx stateName")
  case (Inl err)
  then show ?thesis by (simp add: PyMLFit_def)
next
  case (Inr s)
  then have "SharedStates ctx stateName = Inr (PyML s)" by (rule lookupPyMLState_Inr)
  then have "(SharedStates ctx)(stateName := Inr (PyML s)) = SharedStates ctx" by (simp add: fun_upd_idem)
  with Inr show ?thesis
    by (simp add: PyMLFit_def FitMap_def Let_def split: prod.splits)
qed

lemma PyMLPredict_SharedStates: "SharedStates (fst (PyMLPredict ex ctx stateName dt)) = SharedStates ctx"
  by (simp add: PyMLPredict_def Let_def split: sum.splits prod.splits)

text \<open>
  Claim C6. For a positive batch size \<open>k\<close>: every state that \<open>NewPyMLState\<close> returns
  has an empty bucket and the batch size \<open>k\<close>, so the invariant
  \<open>len(bucket) < batchSize\<close> holds initially (\<open>NewPyMLState\<close> returns no state when the
  module or the instance cannot be made, and panics only when \<open>make\<close> does not accept
  the capacity \<open>k\<close>); the invariant holds when a \<open>Write\<close> returns, whether or not that
  write called \<open>fit\<close> (inside such a write the bucket has reached the batch size, between
  the append and the clearing), and so after every sequence of writes; \<open>Fit\<close>,
  \<open>FitMap\<close> and \<open>Terminate\<close> leave the bucket and the batch size as they are, and the
  operations by name, \<open>PyMLFit\<close> and \<open>PyMLPredict\<close>, leave every registered state as it
  is.
\<close>

theorem bucket_invariant:
  assumes "0 < k"
  shows "(case NewPyMLState rt ex tr modulePathName moduleName className k modelPath of
            Inl p \<Rightarrow> \<not> make_ok rt ValueElem k
          | Inr (tr', Inl err) \<Rightarrow> True
          | Inr (tr', Inr s0) \<Rightarrow> bucket_inv s0 \<and> batchSize s0 = k \<and> bucket s0 = [])
       \<and> (batchSize s = k \<longrightarrow>
            bucket_inv (fst (Write ex s tr t)) \<and> batchSize (fst (Write ex s tr t)) = k)
       \<and> (batchSize s = k \<and> bucket_inv s \<longrightarrow>
            bucket_inv (fst (Writes ex s tr ts)) \<and> batchSize (fst (Writes ex s tr ts)) = k)
       \<and> (bucket (fst (Fit ex s tr bkt)) = bucket s \<and> batchSize (fst (Fit ex s tr bkt)) = batchSize s)
       \<and> (bucket (fst (FitMap ex s tr bkts)) = bucket s \<and> batchSize (fst (FitMap ex s tr bkts)) = batchSize s)
       \<and> (bucket (fst (Terminate s tr)) = bucket s \<and> batchSize (fst (Terminate s tr)) = batchSize s)
       \<and> SharedStates (fst (PyMLFit ex ctx stateName bkts)) = SharedStates ctx
       \<and> SharedStates (fst (PyMLPredict ex ctx stateName dt)) = SharedStates ctx"
proof (intro conjI impI)
  show "case NewPyMLState rt ex tr modulePathName moduleName className k modelPath of
            Inl p \<Rightarrow> \<not> make_ok rt ValueElem k
          | Inr (tr', Inl err) \<Rightarrow> True
          | Inr (tr', Inr s0) \<Rightarrow> bucket_inv s0 \<and> batchSize s0 = k \<and> bucket s0 = []"
    using assms by (simp add: NewPyMLState_def Let_def bucket_inv_def split: sum.splits)
next
  assume "batchSize s = k"
  with assms Write_bucket_inv [of s ex tr t]
  show "bucket_inv (fst (Write ex s tr t))" "batchSize (fst (Write ex s tr t)) = k" by simp_all
next
  assume "batchSize s = k \<and> bucket_inv s"
  with assms Writes_bucket_inv [of s ex tr ts]
  show "bucket_inv (fst (Writes ex s tr ts))" "batchSize (fst (Writes ex s tr ts)) = k" by simp_all
next
  show "bucket (fst (Fit ex s tr bkt)) = bucket s" "batchSize (fst (Fit ex s tr bkt)) = batchSize s"
    by (simp_all add: Fit_def split: prod.splits)
next
  show "bucket (fst (FitMap ex s tr bkts)) = bucket s" "batchSize (fst (FitMap ex s tr bkts)) = batchSize s"
    by (simp_all add: FitMap_def Let_def split: prod.splits)
next
  show "bucket (fst (Terminate s tr)) = bucket s" "batchSize (fst (Terminate s tr)) = batchSize s"
    by (simp_all add: Terminate_def)
next
  show "SharedStates (fst (PyMLFit ex ctx stateName bkts)) = SharedStates ctx"
    by (rule PyMLFit_SharedStates)
next
  show "SharedStates (fst (PyMLPredict ex ctx stateName dt)) = SharedStates ctx"
    by (rule PyMLPredict_SharedStates)
qed

text \<open>
  With batch size 2: a new state; one write, which leaves one record; three writes, which
  fit two records and leave one; a prediction by name.
\<close>

theorem bucket_invariant_witness:
  "(case NewPyMLState sample_runtime (sample_extern (String ''done'', None)) [] ''/opt/models'' ''mlp''
          ''MLP'' 2 ''mlp.model'' of
      Inl p \<Rightarrow> False
    | Inr (tr', Inl err) \<Rightarrow> False
    | Inr (tr', Inr s0) \<Rightarrow> bucket_inv s0 \<and> batchSize s0 = 2 \<and> bucket s0 = [])
   \<and> bucket_inv (fst (Write (sample_extern (String ''done'', None)) (sample_state 2) [] (sample_tuple 1)))
   \<and> length (bucket (fst (Write (sample_extern (String ''done'', None)) (sample_state 2) [] (sample_tuple 1)))) = 1
   \<and> bucket_inv (fst (Writes (sample_extern (String ''done'', None)) (sample_state 2) []
        [sample_tuple 1, sample_tuple 2, sample_tuple 3]))
   \<and> length (bucket (fst (Writes (sample_extern (String ''done'', None)) (sample_state 2) []
        [sample_tuple 1, sample_tuple 2, sample_tuple 3]))) = 1
   \<and> SharedStates (fst (PyMLPredict (sample_extern (String ''done'', None)) sample_context ''model'' (IntV 5)))
       = SharedStates sample_context"
proof -
  let ?ex = "sample_extern (String ''done'', None)"
  have k: "(0::int) < 2" by simp
  have s: "batchSize (sample_state 2) = 2" "bucket_inv (sample_state 2)"
    by (simp_all add: sample_state_def bucket_inv_def)
  have n: "NewPyMLState sample_runtime ?ex [] ''/opt/models'' ''mlp'' ''MLP'' 2 ''mlp.model'' =
             Inr ([ImportSysAndAppendPath ''/opt/models'', LoadModule ''mlp'',
                   NewInstance 1 ''MLP'' (String ''mlp.model'')], Inr (sample_state 2))"
    by (simp add: NewPyMLState_def sample_extern_def sample_state_def make_ok_def sample_runtime_def)
  have w1: "bucket (fst (Write ?ex (sample_state 2) [] (sample_tuple 1))) = [Map (Data (sample_tuple 1))]"
    by (simp add: Write_def sample_state_def)
  have w3: "bucket (fst (Writes ?ex (sample_state 2) [] [sample_tuple 1, sample_tuple 2, sample_tuple 3]))
              = [Map (Data (sample_tuple 3))]"
    by (simp add: Write_def Fit_def sample_state_def sample_extern_def split: prod.splits)
  show ?thesis
    using bucket_invariant [OF k, where rt = sample_runtime and ex = ?ex and s = "sample_state 2" and tr = "[]"
        and t = "sample_tuple 1" and ts = "[sample_tuple 1, sample_tuple 2, sample_tuple 3]"
        and ctx = sample_context and stateName = "''model''" and dt = "IntV 5"
        and modulePathName = "''/opt/models''" and moduleName = "''mlp''" and className = "''MLP''"
        and modelPath = "''mlp.model''" and bkt = "[]" and bkts = "[]"]
    by (simp add: s n w1 w3 del: Writes.simps)
qed

subsection \<open>Predict\<close>

text \<open>
  Claim C8. \<open>PyMLPredict\<close> leaves the registry of shared states as it is: the bucket,
  the batch size and the two handles of every state, whatever the bucket holds. When the
  name is a \<open>PyMLState\<close>, the only effect is one call of \<open>predict\<close> on the instance of
  that state with the input value as its single argument, and the results are what that
  call returns; no handle is released. Otherwise nothing is called and the lookup error
  is returned.
\<close>

theorem PyMLPredict_frame:
  "SharedStates (fst (PyMLPredict ex ctx stateName dt)) = SharedStates ctx
   \<and> (case lookupPyMLState ctx stateName of
         Inl err \<Rightarrow> PyMLPredict ex ctx stateName dt = (ctx, NilValue, Some err)
       | Inr s \<Rightarrow>
           PyMLPredict ex ctx stateName dt =
             (ctx\<lparr>events := events ctx @ [Call (ins s) ''predict'' dt]\<rparr>,
              ins_Call ex (events ctx) (ins s) ''predict'' dt))"
  by (simp add: PyMLPredict_def Let_def split: sum.splits prod.splits)

text \<open>
  A registry with a state of one buffered record under \<open>model\<close> and a state of another
  type under \<open>other\<close>.
\<close>

theorem PyMLPredict_frame_witness:
  "PyMLPredict (sample_extern (String ''done'', None)) sample_context ''model'' (IntV 5)
     = (sample_context\<lparr>events := [Call 2 ''predict'' (IntV 5)]\<rparr>, IntV 7, None)
   \<and> SharedStates (fst (PyMLPredict (sample_extern (String ''done'', None)) sample_context ''model'' (IntV 5)))
       ''model'' = Inr (PyML ((sample_state 2)\<lparr>bucket := [Map (Data (sample_tuple 1))]\<rparr>))
   \<and> PyMLPredict (sample_extern (String ''done'', None)) sample_context ''other'' (IntV 5)
     = (sample_context, NilValue,
        Some (Error (''state '' @ [CHR 0x27] @ ''other'' @ [CHR 0x27] @ '' isn'' @ [CHR 0x27] @ ''t a PyMLState'')))"
proof -
  have l: "lookupPyMLState sample_context ''model'' = Inr ((sample_state 2)\<lparr>bucket := [Map (Data (sample_tuple 1))]\<rparr>)"
    by (simp add: lookupPyMLState_def sample_context_def)
  have o: "lookupPyMLState sample_context ''other'' =
             Inl (Error (''state '' @ [CHR 0x27] @ ''other'' @ [CHR 0x27] @ '' isn'' @ [CHR 0x27] @ ''t a PyMLState''))"
    by (simp add: lookupPyMLState_def sample_context_def)
  have e: "events sample_context = []" by (simp add: sample_context_def)
  have m: "SharedStates sample_context ''model'' = Inr (PyML ((sample_state 2)\<lparr>bucket := [Map (Data (sample_tuple 1))]\<rparr>))"
    by (simp add: sample_context_def)
  show ?thesis
    using PyMLPredict_frame [where ex = "sample_extern (String ''done'', None)" and ctx = sample_context
            and stateName = "''model''" and dt = "IntV 5"]
          PyMLPredict_frame [where ex = "sample_extern (String ''done'', None)" and ctx = sample_context
            and stateName = "''other''" and dt = "IntV 5"]
    by (simp add: l o e m sample_extern_def sample_state_def)
qed

section \<open>Properties of concurrent calls of Write\<close>

lemma run_append: "run ex (xs @ ys) c = run ex ys (run ex xs c)"
  by (induction ex xs c rule: run.induct) (auto split: prod.splits)

lemma Write_log_block:
  "Write ex s tr t =
     (if batchSize s \<le> int (length (bucket s)) + 1
      then (s\<lparr>bucket := []\<rparr>,
            log_block ex (fst (ins_Call ex tr (ins s) ''fit'' (Array (bucket s @ [Map (Data t)]))))
              (batchSize s) (tr @ [Call (ins s) ''fit'' (Array (bucket s @ [Map (Data t)]))]),
            snd (ins_Call ex tr (ins s) ''fit'' (Array (bucket s @ [Map (Data t)]))))
      else (s\<lparr>bucket := bucket s @ [Map (Data t)]\<rparr>, tr, None))"
  by (simp add: Write_def Fit_def Let_def log_block_def split: prod.splits sum.splits)

lemma run_one_thread:
  assumes "i < length ths" "ths ! i = AtAppend t"
  shows "run ex (replicate 5 i) (s, tr, ths) =
           (case Write ex s tr t of (s', tr', e) \<Rightarrow> (s', tr', ths[i := Returned e]))"
  using assms
  by (simp add: numeral_eq_Suc Write_log_block Fit_def split: prod.splits)

lemma run_serial_gen:
  "run ex (concat (map (replicate 5) [length done..<length done + length ts])) (s, tr, done @ map AtAppend ts) =
     (case Writes ex s tr ts of (s', tr', es) \<Rightarrow> (s', tr', done @ map Returned es))"
proof (induction ts arbitrary: s tr "done")
  case Nil
  then show ?case by simp
next
  case (Cons t ts)
  obtain s1 tr1 e where w: "Write ex s tr t = (s1, tr1, e)" by (cases "Write ex s tr t")
  have u: "[length done..<length done + length (t # ts)] =
           length done # [length (done @ [Returned e])..<length (done @ [Returned e]) + length ts]"
  proof -
    have "[length done..<length done + Suc (length ts)] = length done # [Suc (length done)..<Suc (length done) + length ts]"
      by (subst upt_rec) simp
    then show ?thesis by simp
  qed
  have one: "run ex (replicate 5 (length done)) (s, tr, done @ map AtAppend (t # ts)) =
             (s1, tr1, (done @ [Returned e]) @ map AtAppend ts)"
    using run_one_thread [of "length done" "done @ map AtAppend (t # ts)" t ex s tr] w
    by simp
  show ?case
    unfolding u using Cons.IH [of "done @ [Returned e]" s1 tr1] one w
    by (simp add: run_append split: prod.splits)
qed

text \<open>
  What a write, and so a sequence of writes, does with the records: each record written
  is, in the order written, in the array of exactly one new \<open>fit\<close> call or still in
  the bucket.
\<close>

lemma fitted_append: "fitted (xs @ ys) = fitted xs @ fitted ys"
  by (induction xs rule: fitted.induct) simp_all

lemma log_block_events:
  "\<exists>lg. log_block ex m bs tr = tr @ lg \<and> fit_calls lg = [] \<and> fitted lg = []"
  by (simp add: log_block_def split: sum.splits)

lemma Write_conserve:
  "case Write ex s tr t of (s', tr', e) \<Rightarrow>
     \<exists>new. tr' = tr @ new \<and> fitted new @ bucket s' = bucket s @ [Map (Data t)]"
proof (cases "batchSize s \<le> int (length (bucket s)) + 1")
  case False
  then show ?thesis by (simp add: Write_log_block)
next
  case True
  let ?c = "Call (ins s) ''fit'' (Array (bucket s @ [Map (Data t)]))"
  from log_block_events [where ex = ex
      and m = "fst (ins_Call ex tr (ins s) ''fit'' (Array (bucket s @ [Map (Data t)])))"
      and bs = "batchSize s" and tr = "tr @ [?c]"]
  obtain lg where lg: "log_block ex (fst (ins_Call ex tr (ins s) ''fit'' (Array (bucket s @ [Map (Data t)]))))
      (batchSize s) (tr @ [?c]) = (tr @ [?c]) @ lg" "fitted lg = []"
    by blast
  have "fitted (?c # lg) @ [] = bucket s @ [Map (Data t)]" using lg(2) by simp
  with True lg(1) show ?thesis
    by (simp add: Write_log_block)
qed

lemma Writes_conserve:
  "case Writes ex s tr ts of (s', tr', es) \<Rightarrow>
     \<exists>new. tr' = tr @ new \<and> fitted new @ bucket s' = bucket s @ map (Map \<circ> Data) ts"
proof (induction ts arbitrary: s tr)
  case Nil
  then show ?case by simp
next
  case (Cons t ts)
  obtain s1 tr1 e where w: "Write ex s tr t = (s1, tr1, e)" by (cases "Write ex s tr t")
  obtain s2 tr2 es where ws: "Writes ex s1 tr1 ts = (s2, tr2, es)" by (cases "Writes ex s1 tr1 ts")
  from Write_conserve [where ex = ex and s = s and tr = tr and t = t] w
  obtain n1 where n1: "tr1 = tr @ n1" "fitted n1 @ bucket s1 = bucket s @ [Map (Data t)]" by auto
  from Cons.IH [where s = s1 and tr = tr1] ws
  obtain n2 where n2: "tr2 = tr1 @ n2" "fitted n2 @ bucket s2 = bucket s1 @ map (Map \<circ> Data) ts" by auto
  have "tr2 = tr @ (n1 @ n2)" using n1 n2 by simp
  moreover have "fitted (n1 @ n2) @ bucket s2 = bucket s @ map (Map \<circ> Data) (t # ts)"
    using n1(2) n2(2) by (simp add: fitted_append)
  ultimately show ?case using w ws by auto
qed

lemma Writes_full:
  assumes k: "1 \<le> batchSize s" and b: "int (length (bucket s)) < batchSize s"
      and full: "int (length (bucket s) + length ts) = batchSize s"
  shows "case Writes ex s tr ts of (s', tr', es) \<Rightarrow>
           fit_calls tr' = fit_calls tr @ [(ins s, Array (bucket s @ map (Map \<circ> Data) ts))]
           \<and> bucket s' = []"
proof -
  from full b have "ts \<noteq> []" by auto
  then obtain ts0 t where ts: "ts = ts0 @ [t]"
    by (metis rev_exhaust)
  let ?s1 = "s\<lparr>bucket := bucket s @ map (Map \<circ> Data) ts0\<rparr>"
  have pre: "Writes ex s tr ts0 = (?s1, tr, replicate (length ts0) None)"
    using full k ts by (intro Writes_below) simp
  have "batchSize ?s1 \<le> int (length (bucket ?s1)) + 1"
    using full k ts by simp
  from Write_at [OF this, of ex tr t]
  obtain lg where w: "Write ex ?s1 tr t =
            (?s1\<lparr>bucket := []\<rparr>,
             tr @ Call (ins ?s1) ''fit'' (Array (bucket ?s1 @ [Map (Data t)])) # lg,
             snd (ins_Call ex tr (ins ?s1) ''fit'' (Array (bucket ?s1 @ [Map (Data t)]))))"
     and lg: "fit_calls lg = []"
    by blast
  show ?thesis
    unfolding ts Writes_snoc pre using w lg
    by (simp add: fit_calls_append)
qed

text \<open>
  Claim C9, as amended. \<open>Write\<close> takes no lock; what holds is the sequential reading.
  When the callers are scheduled one after the other, each running from its append to its
  return before the next starts, any number of calls of \<open>Write\<close> on one state behave as
  that many consecutive calls of \<open>Write\<close>: the state, the events and the errors returned
  are those of \<open>Writes\<close>. Then no append is lost and no buffer is fit twice: the records
  that were in the bucket followed by the records written are, in that order, exactly the
  records handed to the new \<open>fit\<close> calls followed by the records left in the bucket. In
  particular, for a batch size \<open>k \<ge> 1\<close> and a bucket below it, writes that keep the
  bucket below \<open>k\<close> call nothing and writes that bring it to \<open>k\<close> call \<open>fit\<close> exactly
  once, with exactly those records, and leave the bucket empty.
\<close>

theorem Write_serial_schedule:
  "run ex (serial (length ts)) (s, tr, map AtAppend ts) =
     (case Writes ex s tr ts of (s', tr', es) \<Rightarrow> (s', tr', map Returned es))
   \<and> (case run ex (serial (length ts)) (s, tr, map AtAppend ts) of (s', tr', ths) \<Rightarrow>
        (\<exists>new. tr' = tr @ new \<and> fitted new @ bucket s' = bucket s @ map (Map \<circ> Data) ts)
      \<and> (1 \<le> batchSize s \<and> int (length (bucket s)) < batchSize s \<longrightarrow>
           (int (length (bucket s) + length ts) < batchSize s \<longrightarrow>
              tr' = tr \<and> bucket s' = bucket s @ map (Map \<circ> Data) ts)
         \<and> (int (length (bucket s) + length ts) = batchSize s \<longrightarrow>
              fit_calls tr' = fit_calls tr @ [(ins s, Array (bucket s @ map (Map \<circ> Data) ts))]
              \<and> bucket s' = [])))"
proof -
  obtain s1 tr1 es where ws: "Writes ex s tr ts = (s1, tr1, es)" by (cases "Writes ex s tr ts")
  have r: "run ex (serial (length ts)) (s, tr, map AtAppend ts) = (s1, tr1, map Returned es)"
    using run_serial_gen [of ex "[]" ts s tr] ws by (simp add: serial_def)
  have c: "\<exists>new. tr1 = tr @ new \<and> fitted new @ bucket s1 = bucket s @ map (Map \<circ> Data) ts"
    using Writes_conserve [where ex = ex and s = s and tr = tr and ts = ts] ws by simp
  have lo: "tr1 = tr \<and> bucket s1 = bucket s @ map (Map \<circ> Data) ts"
    if "int (length (bucket s) + length ts) < batchSize s"
    using Writes_below [OF that, where ex = ex and tr = tr] ws by simp
  have hi: "fit_calls tr1 = fit_calls tr @ [(ins s, Array (bucket s @ map (Map \<circ> Data) ts))]
            \<and> bucket s1 = []"
    if "1 \<le> batchSize s" "int (length (bucket s)) < batchSize s"
       "int (length (bucket s) + length ts) = batchSize s"
    using Writes_full [OF that, where ex = ex and tr = tr] ws by simp
  show ?thesis
    unfolding r ws using c lo hi by simp
qed

text \<open>Two callers, batch size 2, one after the other: one \<open>fit\<close> call with both records.\<close>

theorem Write_serial_schedule_witness:
  "run (sample_extern (String ''done'', None)) (serial 2)
       (sample_state 2, [], [AtAppend (sample_tuple 1), AtAppend (sample_tuple 2)])
     = (sample_state 2,
        [Call 2 ''fit'' (Array [Map (Data (sample_tuple 1)), Map (Data (sample_tuple 2))])],
        [Returned None, Returned None])
   \<and> 1 \<le> batchSize (sample_state 2)
   \<and> int (length (bucket (sample_state 2))) < batchSize (sample_state 2)
   \<and> int (length (bucket (sample_state 2)) + length [sample_tuple 1, sample_tuple 2])
       = batchSize (sample_state 2)
   \<and> fitted [Call 2 ''fit'' (Array [Map (Data (sample_tuple 1)), Map (Data (sample_tuple 2))])]
       @ bucket (sample_state 2)
       = bucket (sample_state 2) @ map (Map \<circ> Data) [sample_tuple 1, sample_tuple 2]"
proof -
  have w: "Writes (sample_extern (String ''done'', None)) (sample_state 2) []
             [sample_tuple 1, sample_tuple 2]
           = (sample_state 2,
              [Call 2 ''fit'' (Array [Map (Data (sample_tuple 1)), Map (Data (sample_tuple 2))])],
              [None, None])"
    by (simp add: Write_def Fit_def sample_state_def sample_extern_def)
  have l: "length [sample_tuple 1, sample_tuple 2] = 2" by simp
  have h: "1 \<le> batchSize (sample_state 2)"
    "int (length (bucket (sample_state 2))) < batchSize (sample_state 2)"
    "int (length (bucket (sample_state 2)) + length [sample_tuple 1, sample_tuple 2])
       = batchSize (sample_state 2)"
    by (simp_all add: sample_state_def)
  have f: "fitted [Call 2 ''fit'' (Array [Map (Data (sample_tuple 1)), Map (Data (sample_tuple 2))])]
       @ bucket (sample_state 2)
       = bucket (sample_state 2) @ map (Map \<circ> Data) [sample_tuple 1, sample_tuple 2]"
    by (simp add: sample_state_def)
  from Write_serial_schedule [where ex = "sample_extern (String ''done'', None)"
            and ts = "[sample_tuple 1, sample_tuple 2]" and s = "sample_state 2" and tr = "[]",
            THEN conjunct1, unfolded w] l
  have "run (sample_extern (String ''done'', None)) (serial 2)
       (sample_state 2, [], [AtAppend (sample_tuple 1), AtAppend (sample_tuple 2)])
     = (sample_state 2,
        [Call 2 ''fit'' (Array [Map (Data (sample_tuple 1)), Map (Data (sample_tuple 2))])],
        [Returned None, Returned None])"
    by (simp del: Writes.simps add: numeral_2_eq_2)
  with h f show ?thesis by blast
qed

text \<open>
  Claim C9, as stated, fails: two callers of \<open>Write\<close> on one state are not exclusive.
  With batch size 2 and the two callers taking turns statement by statement, both append,
  both find the bucket full, and both call \<open>fit\<close> with the same two records: the same
  buffer is fit twice, where the two writes made one after the other, in either order,
  fit it once. With batch size 1, the second caller appends between the first caller's
  \<open>fit\<close> and its clearing of the bucket: its record is cleared without having been fit
  and its own test finds the bucket empty, where two consecutive writes fit each record.
\<close>

theorem Write_interleaved_counterexample:
  "\<not> exclusive (sample_extern (String ''done'', None)) (sample_state 2) []
        (sample_tuple 1) (sample_tuple 2)
   \<and> run (sample_extern (String ''done'', None)) [0, 1, 0, 1, 0, 1, 0, 1, 0, 1]
       (sample_state 2, [], [AtAppend (sample_tuple 1), AtAppend (sample_tuple 2)])
     = (sample_state 2,
        [Call 2 ''fit'' (Array [Map (Data (sample_tuple 1)), Map (Data (sample_tuple 2))]),
         Call 2 ''fit'' (Array [Map (Data (sample_tuple 1)), Map (Data (sample_tuple 2))])],
        [Returned None, Returned None])
   \<and> write_outcome (sample_extern (String ''done'', None)) (sample_state 2) []
         [sample_tuple 1, sample_tuple 2]
     = (sample_state 2,
        [Call 2 ''fit'' (Array [Map (Data (sample_tuple 1)), Map (Data (sample_tuple 2))])])
   \<and> write_outcome (sample_extern (String ''done'', None)) (sample_state 2) []
         [sample_tuple 2, sample_tuple 1]
     = (sample_state 2,
        [Call 2 ''fit'' (Array [Map (Data (sample_tuple 2)), Map (Data (sample_tuple 1))])])
   \<and> run (sample_extern (String ''done'', None)) [0, 0, 0, 1, 0, 0, 1]
       (sample_state 1, [], [AtAppend (sample_tuple 1), AtAppend (sample_tuple 2)])
     = (sample_state 1,
        [Call 2 ''fit'' (Array [Map (Data (sample_tuple 1))])],
        [Returned None, Returned None])
   \<and> write_outcome (sample_extern (String ''done'', None)) (sample_state 1) []
         [sample_tuple 1, sample_tuple 2]
     = (sample_state 1,
        [Call 2 ''fit'' (Array [Map (Data (sample_tuple 1))]),
         Call 2 ''fit'' (Array [Map (Data (sample_tuple 2))])])"
proof -
  let ?ex = "sample_extern (String ''done'', None)"
  have lb: "log_block ?ex (String ''done'') bs tr = tr" for bs tr
    by (simp add: log_block_def sample_extern_def)
  have c: "ins_Call ?ex tr i ''fit'' v = (String ''done'', None)" for tr i v
    by (simp add: sample_extern_def)
  have r: "run ?ex [0, 1, 0, 1, 0, 1, 0, 1, 0, 1]
             (sample_state 2, [], [AtAppend (sample_tuple 1), AtAppend (sample_tuple 2)])
           = (sample_state 2,
              [Call 2 ''fit'' (Array [Map (Data (sample_tuple 1)), Map (Data (sample_tuple 2))]),
               Call 2 ''fit'' (Array [Map (Data (sample_tuple 1)), Map (Data (sample_tuple 2))])],
              [Returned None, Returned None])"
    by (simp add: Fit_def sample_state_def lb c)
  have w12: "write_outcome ?ex (sample_state 2) [] [sample_tuple 1, sample_tuple 2]
           = (sample_state 2,
              [Call 2 ''fit'' (Array [Map (Data (sample_tuple 1)), Map (Data (sample_tuple 2))])])"
    by (simp add: write_outcome_def Write_log_block sample_state_def lb c)
  have w21: "write_outcome ?ex (sample_state 2) [] [sample_tuple 2, sample_tuple 1]
           = (sample_state 2,
              [Call 2 ''fit'' (Array [Map (Data (sample_tuple 2)), Map (Data (sample_tuple 1))])])"
    by (simp add: write_outcome_def Write_log_block sample_state_def lb c)
  have l: "run ?ex [0, 0, 0, 1, 0, 0, 1]
             (sample_state 1, [], [AtAppend (sample_tuple 1), AtAppend (sample_tuple 2)])
           = (sample_state 1,
              [Call 2 ''fit'' (Array [Map (Data (sample_tuple 1))])],
              [Returned None, Returned None])"
    by (simp add: Fit_def sample_state_def lb c)
  have w1: "write_outcome ?ex (sample_state 1) [] [sample_tuple 1, sample_tuple 2]
           = (sample_state 1,
              [Call 2 ''fit'' (Array [Map (Data (sample_tuple 1))]),
               Call 2 ''fit'' (Array [Map (Data (sample_tuple 2))])])"
    by (simp add: write_outcome_def Write_log_block sample_state_def lb c)
  have "\<not> exclusive ?ex (sample_state 2) [] (sample_tuple 1) (sample_tuple 2)"
  proof
    assume "exclusive ?ex (sample_state 2) [] (sample_tuple 1) (sample_tuple 2)"
    then have "(sample_state 2,
              [Call 2 ''fit'' (Array [Map (Data (sample_tuple 1)), Map (Data (sample_tuple 2))]),
               Call 2 ''fit'' (Array [Map (Data (sample_tuple 1)), Map (Data (sample_tuple 2))])])
             = write_outcome ?ex (sample_state 2) [] [sample_tuple 1, sample_tuple 2]
           \<or> (sample_state 2,
              [Call 2 ''fit'' (Array [Map (Data (sample_tuple 1)), Map (Data (sample_tuple 2))]),
               Call 2 ''fit'' (Array [Map (Data (sample_tuple 1)), Map (Data (sample_tuple 2))])])
             = write_outcome ?ex (sample_state 2) [] [sample_tuple 2, sample_tuple 1]"
      unfolding exclusive_def using r by blast
    then show False unfolding w12 w21 by simp
  qed
  with r w12 w21 l w1 show ?thesis by blast
qed

end
